theory Spec2Isabelle
  imports Complex_Main "HOL-Library.AList"
begin

section \<open>Nodes (src/utils/Graph.ts)\<close>

text \<open>
  \<^verbatim>\<open>export type node = string | number\<close>. A node is a string or a number; number nodes
  are modelled as integers (the specification speaks of "string or integer" identifiers).
  \<^verbatim>\<open>nullNode\<close> is a symbol, distinct from every node.
\<close>

datatype node = Str string | Num int

datatype nodeOrNullNode = nullNode | Node node

text \<open>Decimal digits of a natural number, most significant first.\<close>

fun digits :: "nat \<Rightarrow> string" where
  "digits n =
     (if n < 10 then [''0123456789'' ! n]
      else digits (n div 10) @ [''0123456789'' ! (n mod 10)])"

declare digits.simps [simp del]

text \<open>
  What a template literal \<^verbatim>\<open>`${n}`\<close> makes of a node: a string is taken as it is, an
  integer is written in decimal, with a leading minus sign when it is negative (as
  JavaScript does for the integers it prints without an exponent). The properties of
  the search below do not depend on how a node is printed.
\<close>

fun toString :: "node \<Rightarrow> string" where
  "toString (Str s) = s"
| "toString (Num i) = (if i < 0 then ''-'' @ digits (nat (- i)) else digits (nat i))"

text \<open>\<^verbatim>\<open>export type weightKey<N> = `${N}-${N}`\<close>, built as \<^verbatim>\<open>`${n1}-${n2}`\<close>.\<close>

definition weightKey :: "node \<Rightarrow> node \<Rightarrow> string" where
  "weightKey n1 n2 = toString n1 @ ''-'' @ toString n2"

text \<open>
  JavaScript truthiness of a node, as tested by \<^verbatim>\<open>source && ...\<close>: the empty string and
  the number zero are falsy, every other string or integer is truthy.
\<close>

fun truthy :: "node \<Rightarrow> bool" where
  "truthy (Str s) = (s \<noteq> [])"
| "truthy (Num i) = (i \<noteq> 0)"

section \<open>Graph and WeightedGraph (src/utils/Graph.ts)\<close>

text \<open>
  \<^verbatim>\<open>adj: Map<N, Set<N>>\<close>. Both a JavaScript Map and a Set iterate in insertion order,
  and the search iterates over both, so the adjacency structure is an association list
  of nodes to neighbour lists. \<^verbatim>\<open>Map.set\<close> on a present key replaces the value in place
  and on an absent key appends (\<^const>\<open>AList.update\<close>); \<^verbatim>\<open>Set.add\<close> appends an absent
  element and leaves a present one where it is.
  \<^verbatim>\<open>weights: Map<weightKey<N>, number>\<close> is never iterated: it is a map from key strings
  to numbers. A number that is a weight is a real; what the search does with the sums
  of such numbers is said at \<open>plus_number\<close> below.
\<close>

type_synonym adjacency = "(node \<times> node list) list"

record WeightedGraph =
  adj :: adjacency
  weights :: "string \<rightharpoonup> real"

text \<open>
  The errors a call can end with: \<^verbatim>\<open>Error("Invalid nodes")\<close> of \<^verbatim>\<open>weight\<close>; the
  priority queue's refusal to raise a key in \<^verbatim>\<open>decreaseKey\<close>, and a \<^verbatim>\<open>decreaseKey\<close> on
  a handle that is no longer in the queue (outside the queue's contract); the
  \<^verbatim>\<open>TypeError\<close> of reading a property of \<^verbatim>\<open>null\<close>.
\<close>

datatype error = InvalidNodes | KeyLargerThanOld | StaleHandle | TypeError

text \<open>\<^verbatim>\<open>new WeightedGraph()\<close>: both maps empty.\<close>

definition emptyGraph :: WeightedGraph where
  "emptyGraph = \<lparr>adj = [], weights = Map.empty\<rparr>"

definition set_add :: "node \<Rightarrow> node list \<Rightarrow> node list" where
  "set_add n ns = (if n \<in> set ns then ns else ns @ [n])"

definition set_delete :: "node \<Rightarrow> node list \<Rightarrow> node list" where
  "set_delete n ns = removeAll n ns"

text \<open>\<^verbatim>\<open>Graph.addNode\<close>: \<^verbatim>\<open>if (!this.adj.has(n)) this.adj.set(n, new Set())\<close>.\<close>

definition Graph_addNode :: "node \<Rightarrow> adjacency \<Rightarrow> adjacency" where
  "Graph_addNode n a = (if map_of a n = None then AList.update n [] a else a)"

text \<open>
  \<^verbatim>\<open>Graph.addArc\<close>: \<^verbatim>\<open>this.addNode(n1); this.addNode(n2); this.adj.get(n1)?.add(n2)\<close>.
\<close>

definition Graph_addArc :: "node \<Rightarrow> node \<Rightarrow> adjacency \<Rightarrow> adjacency" where
  "Graph_addArc n1 n2 a =
     (let a1 = Graph_addNode n1 a; a2 = Graph_addNode n2 a1
      in case map_of a2 n1 of
           None \<Rightarrow> a2
         | Some ns \<Rightarrow> AList.update n1 (set_add n2 ns) a2)"

text \<open>\<^verbatim>\<open>Graph.removeArc\<close>: \<^verbatim>\<open>this.adj.get(n1)?.delete(n2)\<close>.\<close>

definition Graph_removeArc :: "node \<Rightarrow> node \<Rightarrow> adjacency \<Rightarrow> adjacency" where
  "Graph_removeArc n1 n2 a =
     (case map_of a n1 of
        None \<Rightarrow> a
      | Some ns \<Rightarrow> AList.update n1 (set_delete n2 ns) a)"

text \<open>\<^verbatim>\<open>Graph.arc\<close>: \<^verbatim>\<open>!!this.adj.get(n1)?.has(n2)\<close>.\<close>

definition arc :: "WeightedGraph \<Rightarrow> node \<Rightarrow> node \<Rightarrow> bool" where
  "arc G n1 n2 = (case map_of (adj G) n1 of None \<Rightarrow> False | Some ns \<Rightarrow> n2 \<in> set ns)"

text \<open>\<^verbatim>\<open>Graph.nodesIterator\<close>: the keys of \<^verbatim>\<open>adj\<close>, in insertion order.\<close>

definition nodesIterator :: "WeightedGraph \<Rightarrow> node list" where
  "nodesIterator G = map fst (adj G)"

text \<open>
  \<^verbatim>\<open>Graph.neighborsIterator\<close>: \<^verbatim>\<open>this.adj.get(n)?.values()\<close>, \<^verbatim>\<open>undefined\<close> (here
  \<^const>\<open>None\<close>) when \<^verbatim>\<open>n\<close> is not a key.
\<close>

definition neighborsIterator :: "WeightedGraph \<Rightarrow> node \<Rightarrow> node list option" where
  "neighborsIterator G n = map_of (adj G) n"

text \<open>\<^verbatim>\<open>addNode\<close> is inherited by WeightedGraph from Graph.\<close>

definition addNode :: "node \<Rightarrow> WeightedGraph \<Rightarrow> WeightedGraph" where
  "addNode n G = G\<lparr>adj := Graph_addNode n (adj G)\<rparr>"

text \<open>
  \<^verbatim>\<open>WeightedGraph.addArc(n1, n2, w = 0)\<close>: \<^verbatim>\<open>super.addArc(n1, n2)\<close>, then
  \<^verbatim>\<open>this.weights.set(`${n1}-${n2}`, w)\<close>. The optional weight is an \<^typ>\<open>real option\<close>;
  an omitted (\<^verbatim>\<open>undefined\<close>) argument takes the default \<open>0\<close>.
\<close>

definition addArc :: "node \<Rightarrow> node \<Rightarrow> real option \<Rightarrow> WeightedGraph \<Rightarrow> WeightedGraph" where
  "addArc n1 n2 w G =
     \<lparr>adj = Graph_addArc n1 n2 (adj G),
      weights = (weights G)(weightKey n1 n2 \<mapsto> (case w of None \<Rightarrow> 0 | Some x \<Rightarrow> x))\<rparr>"

text \<open>
  \<^verbatim>\<open>WeightedGraph.removeArc\<close>: \<^verbatim>\<open>super.removeArc(n1, n2)\<close>, then
  \<^verbatim>\<open>this.weights.delete(`${n1}-${n2}`)\<close>.
\<close>

definition removeArc :: "node \<Rightarrow> node \<Rightarrow> WeightedGraph \<Rightarrow> WeightedGraph" where
  "removeArc n1 n2 G =
     \<lparr>adj = Graph_removeArc n1 n2 (adj G),
      weights = (weights G)(weightKey n1 n2 := None)\<rparr>"

text \<open>\<^verbatim>\<open>WeightedGraph.addEdge(n1, n2, w?)\<close>: both arcs, with the same optional weight.\<close>

definition addEdge :: "node \<Rightarrow> node \<Rightarrow> real option \<Rightarrow> WeightedGraph \<Rightarrow> WeightedGraph" where
  "addEdge n1 n2 w G = addArc n2 n1 w (addArc n1 n2 w G)"

definition removeEdge :: "node \<Rightarrow> node \<Rightarrow> WeightedGraph \<Rightarrow> WeightedGraph" where
  "removeEdge n1 n2 G = removeArc n2 n1 (removeArc n1 n2 G)"

text \<open>
  \<^verbatim>\<open>WeightedGraph.weight\<close>: throws \<^verbatim>\<open>Error("Invalid nodes")\<close> when the arc is absent, and
  otherwise returns \<^verbatim>\<open>this.weights.get(`${n1}-${n2}`)!\<close>. The non-null assertion is a
  compile-time annotation only: at run time the result of \<^verbatim>\<open>Map.get\<close> is returned as it
  is, \<^verbatim>\<open>undefined\<close> (here \<^const>\<open>None\<close>) when the key has no entry.
\<close>

definition weight :: "WeightedGraph \<Rightarrow> node \<Rightarrow> node \<Rightarrow> error + real option" where
  "weight G n1 n2 =
     (if \<not> arc G n1 n2 then Inl InvalidNodes else Inr (weights G (weightKey n1 n2)))"

text \<open>The mutating calls of the graph API, and a graph built from the empty one by a
  sequence of them.\<close>

datatype call =
    AddNode node
  | AddArc node node "real option"
  | AddEdge node node "real option"
  | RemoveArc node node
  | RemoveEdge node node

fun perform :: "call \<Rightarrow> WeightedGraph \<Rightarrow> WeightedGraph" where
  "perform (AddNode n) G = addNode n G"
| "perform (AddArc n1 n2 w) G = addArc n1 n2 w G"
| "perform (AddEdge n1 n2 w) G = addEdge n1 n2 w G"
| "perform (RemoveArc n1 n2) G = removeArc n1 n2 G"
| "perform (RemoveEdge n1 n2) G = removeEdge n1 n2 G"

definition build :: "call list \<Rightarrow> WeightedGraph" where
  "build cs = fold perform cs emptyGraph"

section \<open>The priority queue (external: @tyriar/fibonacci-heap)\<close>

text \<open>
  Modelled from the spec: the priority queue is an external collaborator, known by its
  contract only (\<^verbatim>\<open>insert(priority, value) -> handle\<close>,
  \<^verbatim>\<open>decreaseKey(handle, newPriority)\<close>, \<^verbatim>\<open>extractMinimum()\<close>, \<^verbatim>\<open>isEmpty()\<close>).
  The model keeps the live entries in insertion order, each with its key, its value and
  a handle that is never reused. Which of several entries of minimal key
  \<^verbatim>\<open>extractMinimum\<close> returns is left to the queue: it is the parameter \<open>tie\<close>, a
  function of the live entries whose result is taken modulo the number of minimal
  entries, so that every function is a valid policy.
\<close>

text \<open>An entry of the queue, \<^verbatim>\<open>INode<number, N>\<close>: its \<^verbatim>\<open>key\<close>, its \<^verbatim>\<open>value\<close> (the
  field \<open>val\<close>) and the identity of the object, by which the search holds on to it.\<close>

record INode =
  key :: real
  val :: node
  handle :: nat

record FibonacciHeap =
  entries :: "INode list"
  fresh :: nat

definition emptyHeap :: FibonacciHeap where
  "emptyHeap = \<lparr>entries = [], fresh = 0\<rparr>"

text \<open>Modelled from the spec: \<^verbatim>\<open>isEmpty() -> bool\<close> of the external queue.\<close>

definition isEmpty :: "FibonacciHeap \<Rightarrow> bool" where
  "isEmpty Q = (entries Q = [])"

text \<open>
  Modelled from the spec: \<^verbatim>\<open>insert(priority, value) -> handle\<close> of the external queue.
  The new entry gets the next fresh handle.
\<close>

definition insert_heap :: "real \<Rightarrow> node \<Rightarrow> FibonacciHeap \<Rightarrow> nat \<times> FibonacciHeap" where
  "insert_heap k v Q =
     (fresh Q,
      \<lparr>entries = entries Q @ [\<lparr>key = k, val = v, handle = fresh Q\<rparr>],
       fresh = Suc (fresh Q)\<rparr>)"

text \<open>
  Modelled from the spec: \<^verbatim>\<open>decreaseKey(handle, newPriority)\<close> of the external queue. It
  lowers the key of the entry with that handle; a key above the present one is refused
  with an error, and so is a handle that is no longer in the queue.
\<close>

definition decreaseKey :: "nat \<Rightarrow> real \<Rightarrow> FibonacciHeap \<Rightarrow> error + FibonacciHeap" where
  "decreaseKey h k Q =
     (case find (\<lambda>e. handle e = h) (entries Q) of
        None \<Rightarrow> Inl StaleHandle
      | Some e \<Rightarrow>
          if k > key e then Inl KeyLargerThanOld
          else Inr (Q\<lparr>entries := map (\<lambda>x. if handle x = h then x\<lparr>key := k\<rparr> else x) (entries Q)\<rparr>))"

text \<open>
  Modelled from the spec: \<^verbatim>\<open>extractMinimum() -> (priority, value) | empty\<close> of the
  external queue. It returns \<^verbatim>\<open>null\<close> (here \<^const>\<open>None\<close>) on an empty queue, and
  otherwise removes and returns an entry of minimal key. The list \<open>ms\<close> of minimal
  entries is never empty there, so the index is in range.
\<close>

definition extractMinimum ::
    "(INode list \<Rightarrow> nat) \<Rightarrow> FibonacciHeap \<Rightarrow> INode option \<times> FibonacciHeap" where
  "extractMinimum tie Q =
     (case entries Q of
        [] \<Rightarrow> (None, Q)
      | e # es \<Rightarrow>
          let k = fold (\<lambda>x a. min (key x) a) es (key e);
              ms = filter (\<lambda>x. key x = k) (e # es);
              m = ms ! (tie (e # es) mod length ms)
          in (Some m, Q\<lparr>entries := filter (\<lambda>x. handle x \<noteq> handle m) (e # es)\<rparr>))"

section \<open>The search (src/main.ts)\<close>

text \<open>
  What the search takes from its host: the tie-break of the priority queue, and the
  conversion of a string to a number that JavaScript's loose comparison \<^verbatim>\<open>e != s\<close>
  applies when one side is a string and the other a number (\<^const>\<open>None\<close> when the
  string does not denote an integer).
\<close>

record host =
  tie :: "INode list \<Rightarrow> nat"
  StringToNumber :: "string \<Rightarrow> int option"

fun looseEq :: "host \<Rightarrow> node \<Rightarrow> node \<Rightarrow> bool" where
  "looseEq H (Str a) (Str b) = (a = b)"
| "looseEq H (Num i) (Num j) = (i = j)"
| "looseEq H (Str a) (Num j) = (StringToNumber H a = Some j)"
| "looseEq H (Num i) (Str b) = (StringToNumber H b = Some i)"

text \<open>\<^verbatim>\<open>interface DijkstraOptions { maxCumulWeight: number }\<close>\<close>

record DijkstraOptions =
  maxCumulWeight :: real

text \<open>A recorded distance: a number, or \<^verbatim>\<open>Infinity\<close>.\<close>

datatype distance = Finite real | Infinity

text \<open>
  The four structures of one invocation: \<^verbatim>\<open>dist\<close> (the field \<open>distm\<close>, since \<open>dist\<close>
  is a constant of HOL), \<^verbatim>\<open>prev\<close>, the queue \<^verbatim>\<open>Q\<close> and \<^verbatim>\<open>QMapping\<close>, which maps a
  node to its handle in the queue or to \<^verbatim>\<open>null\<close> (\<open>Some None\<close>) once the node has been
  extracted.
\<close>

record state =
  distm :: "node \<rightharpoonup> distance"
  prev :: "node \<rightharpoonup> nodeOrNullNode"
  Q :: FibonacciHeap
  QMapping :: "node \<rightharpoonup> nat option"

text \<open>
  Lines 66 to 71: \<^verbatim>\<open>dist.set(s, 0); QMapping.set(s, Q.insert(0, s))\<close>, then for every
  node \<^verbatim>\<open>e\<close> of the graph \<^verbatim>\<open>prev.set(e, nullNode); if (e != s) dist.set(e, Infinity)\<close>.
\<close>

fun init_nodes :: "host \<Rightarrow> node \<Rightarrow> node list \<Rightarrow> state \<Rightarrow> state" where
  "init_nodes H s [] st = st"
| "init_nodes H s (e # es) st =
     init_nodes H s es
       (st\<lparr>prev := (prev st)(e \<mapsto> nullNode),
           distm := (if \<not> looseEq H e s then (distm st)(e \<mapsto> Infinity) else distm st)\<rparr>)"

definition init :: "host \<Rightarrow> WeightedGraph \<Rightarrow> node \<Rightarrow> state" where
  "init H G s =
     (case insert_heap 0 s emptyHeap of
        (h, Q1) \<Rightarrow>
          init_nodes H s (nodesIterator G)
            \<lparr>distm = [s \<mapsto> Finite 0], prev = Map.empty, Q = Q1, QMapping = [s \<mapsto> Some h]\<rparr>)"

text \<open>
  The sum of two numbers, \<^verbatim>\<open>min.key + G.weight(...)\<close>. JavaScript numbers are IEEE 754
  doubles: a sum that reaches \<open>2^1024 - 2^970\<close> is \<^verbatim>\<open>Infinity\<close>. Below that the sum is
  taken as it is: this is the code's result wherever the sum is itself a double, as for
  whole numbers up to \<open>2^53\<close>; the rounding of other sums, and sums that fall to
  \<^verbatim>\<open>-Infinity\<close>, are not modelled.
\<close>

definition overflow_at :: real where
  "overflow_at = 2 ^ 1024 - 2 ^ 970"

definition plus_number :: "real \<Rightarrow> real \<Rightarrow> distance" where
  "plus_number a b = (if overflow_at \<le> a + b then Infinity else Finite (a + b))"

text \<open>
  Lines 85 to 96, the body of the loop over the neighbours \<^verbatim>\<open>v\<close> of the extracted
  entry \<^verbatim>\<open>min\<close>. \<^verbatim>\<open>G.weight\<close> may throw; when it returns \<^verbatim>\<open>undefined\<close> the sum \<^verbatim>\<open>alt\<close>
  is \<^verbatim>\<open>NaN\<close>, both comparisons are false and nothing is written. When \<^verbatim>\<open>alt\<close> is
  \<^verbatim>\<open>Infinity\<close> it is above every bound and below no distance, and nothing is written
  either. \<^verbatim>\<open>vINode != null\<close> holds for a live handle only.
\<close>

definition relax ::
    "WeightedGraph \<Rightarrow> DijkstraOptions option \<Rightarrow> INode \<Rightarrow> node \<Rightarrow> state \<Rightarrow> error + state" where
  "relax G Opts m v st =
     (case weight G (val m) v of
        Inl e \<Rightarrow> Inl e
      | Inr None \<Rightarrow> Inr st
      | Inr (Some w) \<Rightarrow>
          (case plus_number (key m) w of
             Infinity \<Rightarrow> Inr st
           | Finite alt \<Rightarrow>
               if (case Opts of None \<Rightarrow> False | Some opts \<Rightarrow> alt > maxCumulWeight opts)
               then Inr st
               else if (case (case distm st v of None \<Rightarrow> Infinity | Some d \<Rightarrow> d) of
                          Infinity \<Rightarrow> True | Finite d \<Rightarrow> alt < d)
               then
                 let st1 = st\<lparr>distm := (distm st)(v \<mapsto> Finite alt),
                              prev := (prev st)(v \<mapsto> Node (val m))\<rparr>
                 in case QMapping st1 v of
                      Some (Some vINode) \<Rightarrow>
                        (case decreaseKey vINode alt (Q st1) of
                           Inl e \<Rightarrow> Inl e
                         | Inr Q' \<Rightarrow> Inr (st1\<lparr>Q := Q'\<rparr>))
                    | _ \<Rightarrow>
                        (case insert_heap alt v (Q st1) of
                           (h, Q') \<Rightarrow>
                             Inr (st1\<lparr>Q := Q', QMapping := (QMapping st1)(v \<mapsto> Some h)\<rparr>))
               else Inr st))"

fun relax_all ::
    "WeightedGraph \<Rightarrow> DijkstraOptions option \<Rightarrow> INode \<Rightarrow> node list \<Rightarrow> state \<Rightarrow> error + state" where
  "relax_all G Opts m [] st = Inr st"
| "relax_all G Opts m (v # vs) st =
     (case relax G Opts m v st of
        Inl e \<Rightarrow> Inl e
      | Inr st' \<Rightarrow> relax_all G Opts m vs st')"

text \<open>
  Lines 75 to 97, one turn of the \<^verbatim>\<open>while\<close> loop: it throws, leaves the loop by
  \<^verbatim>\<open>break\<close>, or goes on. The target \<^verbatim>\<open>t\<close> is \<^const>\<open>None\<close> when the call gave \<^verbatim>\<open>[s]\<close>
  only (\<^verbatim>\<open>t === undefined\<close>).
\<close>

datatype outcome = Throw error | Break state | Continue state

definition iteration ::
    "host \<Rightarrow> WeightedGraph \<Rightarrow> node option \<Rightarrow> DijkstraOptions option \<Rightarrow> state \<Rightarrow> outcome" where
  "iteration H G t Opts st =
     (case extractMinimum (tie H) (Q st) of
        (None, Q') \<Rightarrow> Throw TypeError
      | (Some m, Q') \<Rightarrow>
          let st1 = st\<lparr>Q := Q', QMapping := (QMapping st)(val m \<mapsto> None)\<rparr> in
          if t = Some (val m) then Break st1
          else
            (case relax_all G Opts m
                    (case neighborsIterator G (val m) of None \<Rightarrow> [] | Some vs \<Rightarrow> vs) st1 of
               Inl e \<Rightarrow> Throw e
             | Inr st2 \<Rightarrow> Continue st2))"

text \<open>
  The \<^verbatim>\<open>while (!Q.isEmpty())\<close> loop. It need not end (a cycle of negative weight
  lowers distances for ever): not returning is the value \<^const>\<open>None\<close>.
\<close>

partial_function (option) while_loop ::
    "host \<Rightarrow> WeightedGraph \<Rightarrow> node option \<Rightarrow> DijkstraOptions option \<Rightarrow> state
       \<Rightarrow> (error + state) option" where
  "while_loop H G t Opts st =
     (if isEmpty (Q st) then Some (Inr st)
      else case iteration H G t Opts st of
             Throw e \<Rightarrow> Some (Inl e)
           | Break st' \<Rightarrow> Some (Inr st')
           | Continue st' \<Rightarrow> while_loop H G t Opts st')"

text \<open>
  \<^verbatim>\<open>tracePath\<close>, lines 111 to 128. The loop follows \<^verbatim>\<open>prev\<close> until \<^verbatim>\<open>nullNode\<close>; on a
  cyclic predecessor map it does not end.
\<close>

partial_function (option) tracePath_loop ::
    "(node \<rightharpoonup> nodeOrNullNode) \<Rightarrow> nodeOrNullNode \<Rightarrow> node list \<Rightarrow> node list option" where
  "tracePath_loop prv e path =
     (case e of
        nullNode \<Rightarrow> Some path
      | Node n \<Rightarrow>
          tracePath_loop prv (case prv n of None \<Rightarrow> nullNode | Some p \<Rightarrow> p) (n # path))"

definition tracePath ::
    "(node \<rightharpoonup> nodeOrNullNode) \<Rightarrow> node \<Rightarrow> node option \<Rightarrow> node list option" where
  "tracePath prv target source =
     (if prv target \<noteq> Some nullNode
         \<or> (case source of None \<Rightarrow> False | Some src \<Rightarrow> truthy src \<and> target = src)
      then tracePath_loop prv (Node target) []
      else Some [])"

text \<open>
  \<^verbatim>\<open>Dijkstra(G, [s, t], O)\<close>: a path when a target was given, the two maps otherwise.
  The result is \<^const>\<open>None\<close> when the call does not return, \<open>Some (Inl e)\<close> when it
  throws.
\<close>

datatype result =
    Path "node list"
  | Maps "node \<rightharpoonup> distance" "node \<rightharpoonup> nodeOrNullNode"

definition Dijkstra ::
    "host \<Rightarrow> WeightedGraph \<Rightarrow> node \<Rightarrow> node option \<Rightarrow> DijkstraOptions option
       \<Rightarrow> (error + result) option" where
  "Dijkstra H G s t Opts =
     (case while_loop H G t Opts (init H G s) of
        None \<Rightarrow> None
      | Some (Inl e) \<Rightarrow> Some (Inl e)
      | Some (Inr st) \<Rightarrow>
          (case t of
             Some target \<Rightarrow>
               (case tracePath (prev st) target (Some s) of
                  None \<Rightarrow> None
                | Some p \<Rightarrow> Some (Inr (Path p)))
           | None \<Rightarrow> Some (Inr (Maps (distm st) (prev st)))))"

section \<open>Inputs used in the scenarios\<close>

text \<open>The graph with arcs A\<rightarrow>B of weight 1, B\<rightarrow>C of weight 2 and A\<rightarrow>C of weight 5, built
  through the API.\<close>

definition scenario :: WeightedGraph where
  "scenario =
     build [AddArc (Str ''A'') (Str ''B'') (Some 1),
            AddArc (Str ''B'') (Str ''C'') (Some 2),
            AddArc (Str ''A'') (Str ''C'') (Some 5)]"

text \<open>A host whose queue returns the oldest of the minimal entries.\<close>

definition oldest_first :: host where
  "oldest_first = \<lparr>tie = (\<lambda>es. 0), StringToNumber = (\<lambda>str. None)\<rparr>"

text \<open>Two different arcs whose weight keys are the same string \<^verbatim>\<open>a-b-c\<close>: the second
  call removes the weight entry of the arc that the first one added.\<close>

definition colliding :: WeightedGraph where
  "colliding =
     build [AddArc (Str ''a-b'') (Str ''c'') (Some 1),
            RemoveArc (Str ''a'') (Str ''b-c'')]"




text \<open>A graph given to the constructor, \<^verbatim>\<open>new WeightedGraph(adj, weights)\<close>, in which
  the neighbour B is not itself a key of \<^verbatim>\<open>adj\<close>.\<close>

definition unregistered :: WeightedGraph where
  "unregistered = \<lparr>adj = [(Str ''A'', [Str ''B''])], weights = [''A-B'' \<mapsto> 1]\<rparr>"

section \<open>Notions used to state the properties\<close>

text \<open>
  A weighted graph with non-negative weights: every arc of the adjacency structure has
  a weight entry, and that weight is not negative.
\<close>

definition nonneg_weights :: "WeightedGraph \<Rightarrow> bool" where
  "nonneg_weights G =
     (\<forall>(u, vs) \<in> set (adj G). \<forall>v \<in> set vs.
        case weights G (weightKey u v) of None \<Rightarrow> False | Some w \<Rightarrow> 0 \<le> w)"


text \<open>The nodes that can be reached from \<open>s\<close> along arcs.\<close>

inductive reachable :: "WeightedGraph \<Rightarrow> node \<Rightarrow> node \<Rightarrow> bool"
    for G :: WeightedGraph and s :: node where
  start: "reachable G s s"
| step: "reachable G s u \<Longrightarrow> arc G u v \<Longrightarrow> reachable G s v"

text \<open>
  The sum of the arc weights along a sequence of nodes, each weight read with
  \<^verbatim>\<open>G.weight\<close>; there is none when a step of the sequence is not an arc with a number
  for weight.
\<close>

fun pathWeight :: "WeightedGraph \<Rightarrow> node list \<Rightarrow> real option" where
  "pathWeight G [] = Some 0"
| "pathWeight G [x] = Some 0"
| "pathWeight G (x # y # p) =
     (case weight G x y of
        Inr (Some w) \<Rightarrow> (case pathWeight G (y # p) of None \<Rightarrow> None | Some d \<Rightarrow> Some (w + d))
      | _ \<Rightarrow> None)"

text \<open>
  The recorded distance of a node, an unset one counting as \<^verbatim>\<open>Infinity\<close>
  (\<^verbatim>\<open>dist.get(v) ?? Infinity\<close>), and the strict order of recorded distances.
\<close>

definition recorded :: "state \<Rightarrow> node \<Rightarrow> distance" where
  "recorded st v = (case distm st v of None \<Rightarrow> Infinity | Some d \<Rightarrow> d)"

fun below :: "distance \<Rightarrow> distance \<Rightarrow> bool" where
  "below (Finite a) (Finite b) = (a < b)"
| "below (Finite a) Infinity = True"
| "below Infinity d = False"

definition no_higher :: "state \<Rightarrow> state \<Rightarrow> bool" where
  "no_higher st st' =
     (\<forall>u. recorded st' u = recorded st u \<or> below (recorded st' u) (recorded st u))"

text \<open>
  The states of a run: \<open>reaches H G t Opts st st'\<close> when the loop, started in \<open>st\<close>, is
  in \<open>st'\<close> after some number of turns, the last of which may have left by \<^verbatim>\<open>break\<close>.
  It also describes the runs that never end.
\<close>

inductive reaches ::
    "host \<Rightarrow> WeightedGraph \<Rightarrow> node option \<Rightarrow> DijkstraOptions option \<Rightarrow> state \<Rightarrow> state \<Rightarrow> bool"
    for H :: host and G :: WeightedGraph and t :: "node option"
      and Opts :: "DijkstraOptions option" where
  here: "reaches H G t Opts st st"
| turn: "reaches H G t Opts st st1 \<Longrightarrow> \<not> isEmpty (Q st1) \<Longrightarrow>
         iteration H G t Opts st1 = Continue st2 \<Longrightarrow> reaches H G t Opts st st2"
| exit: "reaches H G t Opts st st1 \<Longrightarrow> \<not> isEmpty (Q st1) \<Longrightarrow>
         iteration H G t Opts st1 = Break st2 \<Longrightarrow> reaches H G t Opts st st2"

text \<open>
  The nodes a call of the graph API names; a set of nodes no two pairs of which have the
  same weight key; and, for such a set, the agreement of the two maps of a graph: the
  weights map has an entry for a pair exactly when the adjacency structure has the arc.
\<close>

fun call_nodes :: "call \<Rightarrow> node set" where
  "call_nodes (AddNode n) = {n}"
| "call_nodes (AddArc n1 n2 w) = {n1, n2}"
| "call_nodes (AddEdge n1 n2 w) = {n1, n2}"
| "call_nodes (RemoveArc n1 n2) = {n1, n2}"
| "call_nodes (RemoveEdge n1 n2) = {n1, n2}"

definition collision_free :: "node set \<Rightarrow> bool" where
  "collision_free N =
     (\<forall>a \<in> N. \<forall>b \<in> N. \<forall>c \<in> N. \<forall>d \<in> N. weightKey a b = weightKey c d \<longrightarrow> a = c \<and> b = d)"

definition weights_match :: "node set \<Rightarrow> WeightedGraph \<Rightarrow> bool" where
  "weights_match N G =
     ((\<forall>n1 \<in> N. \<forall>n2 \<in> N. (weights G (weightKey n1 n2) \<noteq> None) = arc G n1 n2)
      \<and> (\<forall>n1 n2. arc G n1 n2 \<longrightarrow> n1 \<in> N \<and> n2 \<in> N))"

section \<open>Invariants of the loop\<close>

text \<open>
  The queue and the two tables agree: handles are distinct and older than the next
  fresh one, a node has a live handle in \<^verbatim>\<open>QMapping\<close> exactly when the queue holds its
  entry, and the key of an entry is the recorded distance of its node.
\<close>

definition queue_inv :: "state \<Rightarrow> bool" where
  "queue_inv st =
     (distinct (map handle (entries (Q st)))
      \<and> (\<forall>e \<in> set (entries (Q st)). handle e < fresh (Q st))
      \<and> (\<forall>e \<in> set (entries (Q st)). QMapping st (val e) = Some (Some (handle e)))
      \<and> (\<forall>v h. QMapping st v = Some (Some h) \<longrightarrow>
               (\<exists>e \<in> set (entries (Q st)). handle e = h \<and> val e = v))
      \<and> (\<forall>e \<in> set (entries (Q st)). distm st (val e) = Some (Finite (key e))))"

text \<open>
  Extracted nodes (\<^verbatim>\<open>QMapping\<close> is \<^verbatim>\<open>null\<close>) have a finite distance that no key in the
  queue is below. While the neighbours of the extracted entry \<open>m\<close> are relaxed, the same
  holds with the key of \<open>m\<close> in between.
\<close>

definition settled_inv :: "state \<Rightarrow> bool" where
  "settled_inv st =
     (\<forall>u. QMapping st u = Some None \<longrightarrow>
        (\<exists>d. distm st u = Some (Finite d) \<and> (\<forall>e \<in> set (entries (Q st)). d \<le> key e)))"

definition mid :: "INode \<Rightarrow> state \<Rightarrow> bool" where
  "mid m st =
     (QMapping st (val m) = Some None
      \<and> distm st (val m) = Some (Finite (key m))
      \<and> (\<forall>e \<in> set (entries (Q st)). key m \<le> key e)
      \<and> (\<forall>u. QMapping st u = Some None \<longrightarrow> (\<exists>d. distm st u = Some (Finite d) \<and> d \<le> key m)))"

text \<open>
  A recorded predecessor is an extracted node, and the distance of the node is the
  distance of its predecessor plus the weight of the arc between them.
\<close>

definition pred_inv :: "WeightedGraph \<Rightarrow> state \<Rightarrow> bool" where
  "pred_inv G st =
     (\<forall>v u. prev st v = Some (Node u) \<longrightarrow>
        QMapping st u = Some None
        \<and> (\<exists>du w. distm st u = Some (Finite du) \<and> weight G u v = Inr (Some w)
                 \<and> distm st v = Some (Finite (du + w))))"

text \<open>
  The source is at distance 0; every other node with a finite distance has a
  predecessor; a node with a finite distance has been in the queue.
\<close>

definition reached_inv :: "node \<Rightarrow> state \<Rightarrow> bool" where
  "reached_inv s st =
     (distm st s = Some (Finite 0)
      \<and> (\<forall>v d. distm st v = Some (Finite d) \<longrightarrow> v = s \<or> (\<exists>u. prev st v = Some (Node u)))
      \<and> (\<forall>v d. distm st v = Some (Finite d) \<longrightarrow> QMapping st v \<noteq> None))"

text \<open>Only the source, the registered nodes and their neighbours ever enter the queue.\<close>

definition universe :: "WeightedGraph \<Rightarrow> node \<Rightarrow> node set" where
  "universe G s = insert s (set (nodesIterator G) \<union> (\<Union>ns \<in> snd ` set (adj G). set ns))"

definition dom_inv :: "WeightedGraph \<Rightarrow> node \<Rightarrow> state \<Rightarrow> bool" where
  "dom_inv G s st = (\<forall>v. QMapping st v \<noteq> None \<longrightarrow> v \<in> universe G s)"

text \<open>
  \<open>trail prv (v # r)\<close>: following the predecessors from \<open>v\<close> visits the nodes of \<open>r\<close> in
  order and stops after the last one, which has no predecessor.
\<close>

fun trail :: "(node \<rightharpoonup> nodeOrNullNode) \<Rightarrow> node list \<Rightarrow> bool" where
  "trail prv [] = False"
| "trail prv [x] = (prv x = None \<or> prv x = Some nullNode)"
| "trail prv (y # x # r) = (prv y = Some (Node x) \<and> trail prv (x # r))"

text \<open>
  From every node with a finite distance the predecessors lead back to the source,
  through extracted nodes, along a path whose weight is that distance.
\<close>

definition path_inv :: "WeightedGraph \<Rightarrow> node \<Rightarrow> state \<Rightarrow> bool" where
  "path_inv G s st =
     (\<forall>v d. distm st v = Some (Finite d) \<longrightarrow>
        (\<exists>r. trail (prev st) (v # r) \<and> last (v # r) = s
            \<and> pathWeight G (rev (v # r)) = Some d
            \<and> (\<forall>x \<in> set r. QMapping st x = Some None)))"

definition loop_inv :: "WeightedGraph \<Rightarrow> node \<Rightarrow> state \<Rightarrow> bool" where
  "loop_inv G s st =
     (queue_inv st \<and> pred_inv G st \<and> reached_inv s st \<and> dom_inv G s st \<and> path_inv G s st)"

text \<open>
  What a later state keeps of an earlier one: extracted nodes stay extracted, with their
  distance; nodes that were in the queue and nodes with an entry in \<^verbatim>\<open>prev\<close> keep one.
\<close>

definition progress :: "state \<Rightarrow> state \<Rightarrow> bool" where
  "progress st st' =
     ((\<forall>u. QMapping st u = Some None \<longrightarrow> QMapping st' u = Some None \<and> distm st' u = distm st u)
      \<and> (\<forall>u. QMapping st u \<noteq> None \<longrightarrow> QMapping st' u \<noteq> None)
      \<and> (\<forall>u. prev st u \<noteq> None \<longrightarrow> prev st' u \<noteq> None))"

text \<open>
  Every finite recorded distance is at most \<open>B\<close>; and the bound that holds when no weight
  is above \<open>W\<close>: the number of extracted nodes times \<open>W\<close>. A graph is \<open>small\<close> for
  \<open>W\<close> when that bound stays below the overflow for all its nodes.
\<close>

definition dist_bound :: "real \<Rightarrow> state \<Rightarrow> bool" where
  "dist_bound B st = (\<forall>v d. distm st v = Some (Finite d) \<longrightarrow> d \<le> B)"

definition settled_count :: "WeightedGraph \<Rightarrow> node \<Rightarrow> state \<Rightarrow> nat" where
  "settled_count G s st = card {u \<in> universe G s. QMapping st u = Some None}"

definition bound_inv :: "WeightedGraph \<Rightarrow> node \<Rightarrow> real \<Rightarrow> state \<Rightarrow> bool" where
  "bound_inv G s W st = dist_bound (real (settled_count G s st) * W) st"

definition small :: "WeightedGraph \<Rightarrow> node \<Rightarrow> real \<Rightarrow> bool" where
  "small G s W =
     (0 \<le> W \<and> (\<forall>u v w. weight G u v = Inr (Some w) \<longrightarrow> w \<le> W)
      \<and> real (card (universe G s)) * W < overflow_at)"

text \<open>
  Without a bound on the cumulative weight and without overflow, every neighbour of an
  extracted node has been in the queue.
\<close>

definition complete_inv :: "WeightedGraph \<Rightarrow> state \<Rightarrow> bool" where
  "complete_inv G st =
     (\<forall>u v. QMapping st u = Some None \<longrightarrow> arc G u v \<longrightarrow> QMapping st v \<noteq> None)"


section \<open>Evaluation\<close>

lemmas graph_defs =
  build_def addArc_def removeArc_def addNode_def addEdge_def removeEdge_def emptyGraph_def
  Graph_addArc_def Graph_addNode_def Graph_removeArc_def set_add_def set_delete_def

lemmas search_defs =
  Dijkstra_def init_def insert_heap_def emptyHeap_def nodesIterator_def isEmpty_def
  iteration_def extractMinimum_def neighborsIterator_def relax_def weight_def arc_def
  plus_number_def overflow_at_def
  weightKey_def decreaseKey_def tracePath_def

lemma scenario_eq:
  "scenario =
     \<lparr>adj = [(Str ''A'', [Str ''B'', Str ''C'']), (Str ''B'', [Str ''C'']), (Str ''C'', [])],
      weights = [''A-B'' \<mapsto> 1, ''B-C'' \<mapsto> 2, ''A-C'' \<mapsto> 5]\<rparr>"
  by (simp add: scenario_def graph_defs weightKey_def)

lemma colliding_eq:
  "colliding = \<lparr>adj = [(Str ''a-b'', [Str ''c'']), (Str ''c'', [])], weights = Map.empty\<rparr>"
  by (simp add: colliding_def graph_defs weightKey_def)

section \<open>The graph\<close>

lemma map_of_Graph_addNode:
  "map_of (Graph_addNode n a) = (if map_of a n = None then (map_of a)(n \<mapsto> []) else map_of a)"
  by (simp add: Graph_addNode_def update_conv')

lemma Graph_addNode_present: "map_of a n \<noteq> None \<Longrightarrow> Graph_addNode n a = a"
  by (auto simp: Graph_addNode_def)

lemma map_of_Graph_addArc:
  "map_of (Graph_addArc n1 n2 a) n =
     (if n = n1 then Some (set_add n2 (case map_of a n1 of None \<Rightarrow> [] | Some ns \<Rightarrow> ns))
      else if n = n2 then Some (case map_of a n2 of None \<Rightarrow> [] | Some ns \<Rightarrow> ns)
      else map_of a n)"
  by (auto simp: Graph_addArc_def Let_def map_of_Graph_addNode update_conv' split: option.splits)

lemma map_of_Graph_removeArc:
  "map_of (Graph_removeArc n1 n2 a) n =
     (if n = n1 then map_option (set_delete n2) (map_of a n1) else map_of a n)"
  by (auto simp: Graph_removeArc_def update_conv' split: option.splits)

lemma arc_addArc: "arc (addArc n1 n2 w G) a b = (arc G a b \<or> (a = n1 \<and> b = n2))"
  by (auto simp: arc_def addArc_def map_of_Graph_addArc set_add_def split: option.splits)

lemma arc_removeArc: "arc (removeArc n1 n2 G) a b = (arc G a b \<and> \<not> (a = n1 \<and> b = n2))"
  by (auto simp: arc_def removeArc_def map_of_Graph_removeArc set_delete_def split: option.splits)

lemma weights_addArc:
  "weights (addArc n1 n2 w G) =
     (weights G)(weightKey n1 n2 \<mapsto> (case w of None \<Rightarrow> 0 | Some x \<Rightarrow> x))"
  by (simp add: addArc_def)

lemma adj_addArc_existing:
  assumes "arc G n1 n2" and "n2 \<in> set (nodesIterator G)"
  shows "adj (addArc n1 n2 w G) = adj G"
proof -
  from assms(1) obtain ns where ns: "map_of (adj G) n1 = Some ns" "n2 \<in> set ns"
    by (auto simp: arc_def split: option.splits)
  from assms(2) have k2: "map_of (adj G) n2 \<noteq> None"
    by (simp add: nodesIterator_def map_of_eq_None_iff)
  have "Graph_addArc n1 n2 (adj G) = adj G"
    using ns k2 by (simp add: Graph_addArc_def Graph_addNode_present set_add_def update_triv)
  then show ?thesis by (simp add: addArc_def)
qed

text \<open>
  Where no two pairs of nodes have the same weight key, the graph API keeps the weights
  map and the adjacency structure in agreement, and \<^verbatim>\<open>weight\<close> returns a number for
  every arc.
\<close>

lemma arc_addNode: "arc (addNode n G) a b = arc G a b"
  by (auto simp: arc_def addNode_def map_of_Graph_addNode split: option.splits)

lemma weights_addNode: "weights (addNode n G) = weights G"
  by (simp add: addNode_def)

lemma weights_removeArc: "weights (removeArc n1 n2 G) = (weights G)(weightKey n1 n2 := None)"
  by (simp add: removeArc_def)

lemma weights_match_addArc:
  assumes "collision_free N" "a \<in> N" "b \<in> N" "weights_match N G"
  shows "weights_match N (addArc a b w G)"
  using assms unfolding weights_match_def collision_free_def
  by (auto simp: arc_addArc weights_addArc)

lemma weights_match_removeArc:
  assumes "collision_free N" "a \<in> N" "b \<in> N" "weights_match N G"
  shows "weights_match N (removeArc a b G)"
  using assms unfolding weights_match_def collision_free_def
  by (auto simp: arc_removeArc weights_removeArc)

lemma weights_match_perform:
  assumes "collision_free N" "call_nodes c \<subseteq> N" "weights_match N G"
  shows "weights_match N (perform c G)"
proof (cases c)
  case (AddNode n)
  with assms(3) show ?thesis by (simp add: weights_match_def arc_addNode weights_addNode)
next
  case (AddArc a b w)
  with assms show ?thesis by (simp add: weights_match_addArc)
next
  case (AddEdge a b w)
  with assms show ?thesis by (simp add: addEdge_def weights_match_addArc)
next
  case (RemoveArc a b)
  with assms show ?thesis by (simp add: weights_match_removeArc)
next
  case (RemoveEdge a b)
  with assms show ?thesis by (simp add: removeEdge_def weights_match_removeArc)
qed

lemma weights_match_fold:
  "collision_free N \<Longrightarrow> \<forall>c \<in> set cs. call_nodes c \<subseteq> N \<Longrightarrow> weights_match N G \<Longrightarrow>
     weights_match N (fold perform cs G)"
  by (induction cs arbitrary: G) (simp_all add: weights_match_perform)

lemma weights_match_build:
  assumes "collision_free N" "\<forall>c \<in> set cs. call_nodes c \<subseteq> N"
  shows "weights_match N (build cs)"
  unfolding build_def using assms
  by (rule weights_match_fold) (simp add: weights_match_def emptyGraph_def arc_def)

lemma weight_throws_iff: "weight G n1 n2 = Inl e \<longleftrightarrow> e = InvalidNodes \<and> \<not> arc G n1 n2"
  by (auto simp: weight_def)

lemma weight_of_matched_arc:
  assumes "weights_match N G" "arc G n1 n2"
  shows "\<exists>w. weight G n1 n2 = Inr (Some w)"
  using assms unfolding weights_match_def weight_def by auto

lemma collision_free_example: "collision_free {Str ''a'', Str ''b'', Str ''c''}"
  by (simp add: collision_free_def weightKey_def)

text \<open>
  C3. The claim: in every graph built from the empty one by API calls, the weights map
  has an entry for a pair exactly when the adjacency structure has the arc. The code
  breaks it: after \<^verbatim>\<open>addArc("a-b", "c", 1)\<close> and \<^verbatim>\<open>removeArc("a", "b-c")\<close> the arc from
  \<^verbatim>\<open>a-b\<close> to \<^verbatim>\<open>c\<close> is still in the adjacency structure, and its weight entry is gone,
  because both pairs have the key \<^verbatim>\<open>a-b-c\<close>.
\<close>

theorem weights_entry_lost_by_key_collision:
  "arc colliding (Str ''a-b'') (Str ''c'')
   \<and> weights colliding (weightKey (Str ''a-b'') (Str ''c'')) = None"
  by (simp add: colliding_eq arc_def weightKey_def)

text \<open>
  C4. The claim: \<^verbatim>\<open>weight\<close> throws exactly when the arc is absent and otherwise returns
  the arc's stored number, never an absent value. On the graph of C3 the arc from
  \<^verbatim>\<open>a-b\<close> to \<^verbatim>\<open>c\<close> exists and \<^verbatim>\<open>weight\<close> returns \<^verbatim>\<open>undefined\<close>.
\<close>

theorem weight_undefined_by_key_collision:
  "weight colliding (Str ''a-b'') (Str ''c'') = Inr None"
  by (simp add: colliding_eq weight_def arc_def weightKey_def)

text \<open>
  C10, as stated: \<^verbatim>\<open>addArc\<close> on an existing arc leaves the adjacency structure
  unchanged. It does not when the target of the arc is not a registered node: the call
  registers it.
\<close>

theorem addArc_existing_arc_registers_target:
  "arc unregistered (Str ''A'') (Str ''B'')
   \<and> adj (addArc (Str ''A'') (Str ''B'') (Some 5) unregistered) \<noteq> adj unregistered"
  by (simp add: unregistered_def arc_def addArc_def Graph_addArc_def Graph_addNode_def set_add_def)

text \<open>
  C10, amended. When the arc from \<open>n1\<close> to \<open>n2\<close> exists, \<^verbatim>\<open>addArc(n1, n2, w)\<close> leaves
  the set of arcs unchanged, and the adjacency structure itself unchanged when \<open>n2\<close> is a
  registered node; the arc's weight afterwards is the given one, \<open>0\<close> when the argument
  is omitted, and \<open>0\<close> after \<^verbatim>\<open>addEdge(n1, n2)\<close> without a weight.
\<close>

theorem addArc_existing_arc:
  assumes "arc G n1 n2"
  shows "(n2 \<in> set (nodesIterator G) \<longrightarrow> adj (addArc n1 n2 w G) = adj G)
       \<and> (\<forall>a b. arc (addArc n1 n2 w G) a b = arc G a b)
       \<and> weight (addArc n1 n2 (Some x) G) n1 n2 = Inr (Some x)
       \<and> weight (addArc n1 n2 None G) n1 n2 = Inr (Some 0)
       \<and> weight (addEdge n1 n2 None G) n1 n2 = Inr (Some 0)"
  using assms adj_addArc_existing [OF assms]
  by (auto simp: weight_def arc_addArc weights_addArc addEdge_def)

theorem addArc_existing_arc_witness:
  "arc scenario (Str ''A'') (Str ''C'')
   \<and> Str ''C'' \<in> set (nodesIterator scenario)
   \<and> adj (addArc (Str ''A'') (Str ''C'') (Some 7) scenario) = adj scenario
   \<and> weight scenario (Str ''A'') (Str ''C'') = Inr (Some 5)
   \<and> weight (addArc (Str ''A'') (Str ''C'') (Some 7) scenario) (Str ''A'') (Str ''C'') = Inr (Some 7)
   \<and> weight (addArc (Str ''A'') (Str ''C'') None scenario) (Str ''A'') (Str ''C'') = Inr (Some 0)
   \<and> weight (addEdge (Str ''A'') (Str ''C'') None scenario) (Str ''A'') (Str ''C'') = Inr (Some 0)"
proof -
  have a: "arc scenario (Str ''A'') (Str ''C'')"
    by (simp add: scenario_eq arc_def)
  have n: "Str ''C'' \<in> set (nodesIterator scenario)"
    by (simp add: scenario_eq nodesIterator_def)
  have w: "weight scenario (Str ''A'') (Str ''C'') = Inr (Some 5)"
    by (simp add: scenario_eq weight_def arc_def weightKey_def)
  show ?thesis
    using a n w addArc_existing_arc [OF a, where w = "Some 7" and x = 7] by simp
qed

section \<open>The scenarios of the search\<close>

text \<open>
  C5. On the graph with arcs A\<rightarrow>B (1), B\<rightarrow>C (2), A\<rightarrow>C (5), whatever the queue's
  tie-break, the full search from A returns the distances A:0, B:1, C:3 and the
  predecessors A:nullNode, B:A, C:B, and the search for the target C returns the path
  A, B, C.
\<close>

theorem scenario_search:
  "Dijkstra H scenario (Str ''A'') None None =
     Some (Inr (Maps [Str ''A'' \<mapsto> Finite 0, Str ''B'' \<mapsto> Finite 1, Str ''C'' \<mapsto> Finite 3]
                     [Str ''A'' \<mapsto> nullNode, Str ''B'' \<mapsto> Node (Str ''A''),
                      Str ''C'' \<mapsto> Node (Str ''B'')]))
   \<and> Dijkstra H scenario (Str ''A'') (Some (Str ''C'')) None =
       Some (Inr (Path [Str ''A'', Str ''B'', Str ''C'']))"
  by (simp add: scenario_eq search_defs while_loop.simps tracePath_loop.simps)

theorem scenario_search_witness:
  "Dijkstra oldest_first scenario (Str ''A'') None None =
     Some (Inr (Maps [Str ''A'' \<mapsto> Finite 0, Str ''B'' \<mapsto> Finite 1, Str ''C'' \<mapsto> Finite 3]
                     [Str ''A'' \<mapsto> nullNode, Str ''B'' \<mapsto> Node (Str ''A''),
                      Str ''C'' \<mapsto> Node (Str ''B'')]))
   \<and> Dijkstra oldest_first scenario (Str ''A'') (Some (Str ''C'')) None =
       Some (Inr (Path [Str ''A'', Str ''B'', Str ''C'']))"
  using scenario_search [of oldest_first] by simp

section \<open>The queue and the loop invariant\<close>

lemma fold_min_le: "fold (\<lambda>x a. min (key x) a) es (k::real) \<le> k"
proof (induction es arbitrary: k)
  case Nil then show ?case by simp
next
  case (Cons x xs)
  have "fold (\<lambda>x a. min (key x) a) xs (min (key x) k) \<le> min (key x) k" by (rule Cons)
  then show ?case by simp
qed

lemma fold_min_le_mem: "e \<in> set es \<Longrightarrow> fold (\<lambda>x a. min (key x) a) es (k::real) \<le> key e"
proof (induction es arbitrary: k)
  case Nil then show ?case by simp
next
  case (Cons x xs)
  show ?case
  proof (cases "e = x")
    case True
    have "fold (\<lambda>x a. min (key x) a) xs (min (key x) k) \<le> min (key x) k" by (rule fold_min_le)
    then show ?thesis using True by simp
  next
    case False
    then show ?thesis using Cons by simp
  qed
qed

lemma fold_min_attained:
  "fold (\<lambda>x a. min (key x) a) es (k::real) = k \<or> (\<exists>e \<in> set es. fold (\<lambda>x a. min (key x) a) es k = key e)"
proof (induction es arbitrary: k)
  case Nil then show ?case by simp
next
  case (Cons x xs)
  from Cons[of "min (key x) k"] show ?case by (auto simp: min_def split: if_splits)
qed

lemma extractMinimum_nonempty:
  assumes "entries Q0 \<noteq> []"
  shows "\<exists>m. extractMinimum tb Q0 = (Some m, Q0\<lparr>entries := filter (\<lambda>x. handle x \<noteq> handle m) (entries Q0)\<rparr>)
            \<and> m \<in> set (entries Q0) \<and> (\<forall>e \<in> set (entries Q0). key m \<le> key e)"
proof -
  from assms obtain e es where ees: "entries Q0 = e # es" by (cases "entries Q0") auto
  define k where "k = fold (\<lambda>x a. min (key x) a) es (key e)"
  define ms where "ms = filter (\<lambda>x. key x = k) (e # es)"
  define m where "m = ms ! (tb (e # es) mod length ms)"
  have kle: "\<forall>x \<in> set (e # es). k \<le> key x"
    using fold_min_le[of es "key e"] fold_min_le_mem[of _ es "key e"] by (auto simp: k_def)
  have "\<exists>x \<in> set (e # es). key x = k"
    using fold_min_attained[of es "key e"] by (auto simp: k_def)
  then have "ms \<noteq> []" by (auto simp: ms_def filter_empty_conv)
  then have "m \<in> set ms" by (simp add: m_def)
  then have m: "m \<in> set (e # es)" "key m = k" unfolding ms_def by (auto split: if_splits)
  have "extractMinimum tb Q0 = (Some m, Q0\<lparr>entries := filter (\<lambda>x. handle x \<noteq> handle m) (entries Q0)\<rparr>)"
    by (simp add: extractMinimum_def ees Let_def m_def ms_def k_def)
  then show ?thesis using m kle ees by auto
qed

lemma nonneg_weights_arc:
  assumes "nonneg_weights G" "arc G u v"
  shows "\<exists>w. weight G u v = Inr (Some w) \<and> 0 \<le> w"
proof -
  from assms(2) obtain ns where ns: "map_of (adj G) u = Some ns" "v \<in> set ns"
    by (auto simp: arc_def split: option.splits)
  then have "(u, ns) \<in> set (adj G)" by (auto dest: map_of_SomeD)
  with assms(1) ns(2) have "case weights G (weightKey u v) of None \<Rightarrow> False | Some w \<Rightarrow> 0 \<le> w"
    unfolding nonneg_weights_def by blast
  then show ?thesis using assms(2) by (auto simp: weight_def split: option.splits)
qed

lemma queue_inv_distinct: "queue_inv st \<Longrightarrow> distinct (map handle (entries (Q st)))"
  by (simp add: queue_inv_def)

lemma queue_inv_fresh: "queue_inv st \<Longrightarrow> e \<in> set (entries (Q st)) \<Longrightarrow> handle e < fresh (Q st)"
  by (simp add: queue_inv_def)

lemma queue_inv_live:
  "queue_inv st \<Longrightarrow> e \<in> set (entries (Q st)) \<Longrightarrow> QMapping st (val e) = Some (Some (handle e))"
  by (simp add: queue_inv_def)

lemma queue_inv_entry:
  "queue_inv st \<Longrightarrow> QMapping st v = Some (Some h) \<Longrightarrow>
     \<exists>e \<in> set (entries (Q st)). handle e = h \<and> val e = v"
  by (simp add: queue_inv_def)

lemma queue_inv_dist:
  "queue_inv st \<Longrightarrow> e \<in> set (entries (Q st)) \<Longrightarrow> distm st (val e) = Some (Finite (key e))"
  by (simp add: queue_inv_def)

lemma queue_inv_handle_inj:
  assumes "queue_inv st" "e \<in> set (entries (Q st))" "e' \<in> set (entries (Q st))" "handle e = handle e'"
  shows "e = e'"
proof -
  from assms(1) have "distinct (map handle (entries (Q st)))" by (simp add: queue_inv_def)
  then have "inj_on handle (set (entries (Q st)))" by (simp add: distinct_map)
  with assms(2-4) show ?thesis by (auto dest: inj_onD)
qed

lemma queue_inv_val_inj:
  assumes "queue_inv st" "e \<in> set (entries (Q st))" "e' \<in> set (entries (Q st))" "val e = val e'"
  shows "e = e'"
proof -
  from assms have "QMapping st (val e) = Some (Some (handle e))" "QMapping st (val e') = Some (Some (handle e'))"
    by (auto dest: queue_inv_live)
  with assms(4) have "handle e = handle e'" by simp
  with assms show ?thesis by (auto intro: queue_inv_handle_inj)
qed

lemma queue_invI:
  assumes "distinct (map handle (entries (Q st)))"
    and "\<And>e. e \<in> set (entries (Q st)) \<Longrightarrow> handle e < fresh (Q st)"
    and "\<And>e. e \<in> set (entries (Q st)) \<Longrightarrow> QMapping st (val e) = Some (Some (handle e))"
    and "\<And>v h. QMapping st v = Some (Some h) \<Longrightarrow> \<exists>e \<in> set (entries (Q st)). handle e = h \<and> val e = v"
    and "\<And>e. e \<in> set (entries (Q st)) \<Longrightarrow> distm st (val e) = Some (Finite (key e))"
  shows "queue_inv st"
  using assms unfolding queue_inv_def by blast

lemma queue_inv_decreaseKey:
  assumes qi: "queue_inv st" and live: "QMapping st v = Some (Some h)"
    and d: "distm st v = Some (Finite d)" and lt: "alt < d"
  shows "\<exists>Q'. decreaseKey h alt (Q st) = Inr Q'
           \<and> queue_inv (st\<lparr>distm := (distm st)(v \<mapsto> Finite alt), prev := p', Q := Q'\<rparr>)
           \<and> (\<forall>e' \<in> set (entries Q'). key e' = alt \<or> e' \<in> set (entries (Q st)))"
proof -
  from queue_inv_entry[OF qi live] obtain e where e: "e \<in> set (entries (Q st))" "handle e = h" "val e = v"
    by auto
  from queue_inv_dist[OF qi e(1)] e d have ke: "key e = d" by simp
  have "find (\<lambda>x. handle x = h) (entries (Q st)) \<noteq> None"
    using e by (auto simp: find_None_iff)
  then obtain e' where f: "find (\<lambda>x. handle x = h) (entries (Q st)) = Some e'" by auto
  then have "e' \<in> set (entries (Q st))" "handle e' = h"
    by (auto simp: find_Some_iff)
  with e qi have "e' = e" by (auto intro: queue_inv_handle_inj)
  define upd :: "INode \<Rightarrow> INode" where "upd = (\<lambda>x. if handle x = h then x\<lparr>key := alt\<rparr> else x)"
  define Q' where "Q' = (Q st)\<lparr>entries := map upd (entries (Q st))\<rparr>"
  define st' where "st' = st\<lparr>distm := (distm st)(v \<mapsto> Finite alt), prev := p', Q := Q'\<rparr>"
  have dk: "decreaseKey h alt (Q st) = Inr Q'"
    using f \<open>e' = e\<close> ke lt by (simp add: decreaseKey_def Q'_def upd_def)
  have upd_h: "\<And>x. handle (upd x) = handle x" and upd_v: "\<And>x. val (upd x) = val x"
    by (simp_all add: upd_def)
  have ent: "entries (Q st') = map upd (entries (Q st))" and fr: "fresh (Q st') = fresh (Q st)"
    and qm: "QMapping st' = QMapping st" and dm: "distm st' = (distm st)(v \<mapsto> Finite alt)"
    by (simp_all add: st'_def Q'_def)
  have other: "val x \<noteq> v" if "x \<in> set (entries (Q st))" "handle x \<noteq> h" for x
    using that e queue_inv_val_inj[OF qi that(1) e(1)] by auto
  have "queue_inv st'"
  proof (rule queue_invI)
    have "map handle (entries (Q st')) = map handle (entries (Q st))"
      by (simp add: ent upd_h comp_def)
    then show "distinct (map handle (entries (Q st')))" using queue_inv_distinct[OF qi] by simp
  next
    fix x assume "x \<in> set (entries (Q st'))"
    then obtain y where y: "y \<in> set (entries (Q st))" "x = upd y" by (auto simp: ent)
    then show "handle x < fresh (Q st')" using queue_inv_fresh[OF qi y(1)] by (simp add: upd_h fr)
  next
    fix x assume "x \<in> set (entries (Q st'))"
    then obtain y where y: "y \<in> set (entries (Q st))" "x = upd y" by (auto simp: ent)
    then show "QMapping st' (val x) = Some (Some (handle x))"
      using queue_inv_live[OF qi y(1)] by (simp add: upd_h upd_v qm)
  next
    fix va h' assume "QMapping st' va = Some (Some h')"
    then have "QMapping st va = Some (Some h')" by (simp add: qm)
    from queue_inv_entry[OF qi this] obtain x where x: "x \<in> set (entries (Q st))" "handle x = h'" "val x = va"
      by auto
    then have "upd x \<in> set (entries (Q st'))" "handle (upd x) = h'" "val (upd x) = va"
      by (simp_all add: ent upd_h upd_v)
    then show "\<exists>e\<in>set (entries (Q st')). handle e = h' \<and> val e = va" by blast
  next
    fix x assume "x \<in> set (entries (Q st'))"
    then obtain y where y: "y \<in> set (entries (Q st))" "x = upd y" by (auto simp: ent)
    show "distm st' (val x) = Some (Finite (key x))"
    proof (cases "handle y = h")
      case True
      then have "y = e" using queue_inv_handle_inj[OF qi y(1) e(1)] e(2) by simp
      then show ?thesis using y e by (simp add: dm upd_def)
    next
      case False
      then show ?thesis using other[OF y(1) False] queue_inv_dist[OF qi y(1)] y(2)
        by (simp add: dm upd_def)
    qed
  qed
  moreover have "\<forall>e' \<in> set (entries Q'). key e' = alt \<or> e' \<in> set (entries (Q st))"
    by (auto simp: Q'_def upd_def)
  ultimately show ?thesis using dk unfolding st'_def by blast
qed

lemma queue_inv_insert:
  assumes qi: "queue_inv st" and notlive: "\<forall>h. QMapping st v \<noteq> Some (Some h)"
  shows "queue_inv (st\<lparr>distm := (distm st)(v \<mapsto> Finite alt), prev := p',
                       Q := snd (insert_heap alt v (Q st)),
                       QMapping := (QMapping st)(v \<mapsto> Some (fst (insert_heap alt v (Q st))))\<rparr>)"
proof -
  define new :: INode where "new = \<lparr>key = alt, val = v, handle = fresh (Q st)\<rparr>"
  define st' where "st' = st\<lparr>distm := (distm st)(v \<mapsto> Finite alt), prev := p',
                       Q := snd (insert_heap alt v (Q st)),
                       QMapping := (QMapping st)(v \<mapsto> Some (fst (insert_heap alt v (Q st))))\<rparr>"
  have ent: "entries (Q st') = entries (Q st) @ [new]" and fr: "fresh (Q st') = Suc (fresh (Q st))"
    and qm: "QMapping st' = (QMapping st)(v \<mapsto> Some (fresh (Q st)))"
    and dm: "distm st' = (distm st)(v \<mapsto> Finite alt)"
    by (simp_all add: st'_def insert_heap_def new_def)
  have nv: "val x \<noteq> v" if "x \<in> set (entries (Q st))" for x
    using queue_inv_live[OF qi that] notlive by auto
  have "queue_inv st'"
  proof (rule queue_invI)
    have "fresh (Q st) \<notin> handle ` set (entries (Q st))"
      using queue_inv_fresh[OF qi] by fastforce
    then show "distinct (map handle (entries (Q st')))"
      using queue_inv_distinct[OF qi] by (simp add: ent new_def)
  next
    fix x assume "x \<in> set (entries (Q st'))"
    then have "x \<in> set (entries (Q st)) \<or> x = new" by (auto simp: ent)
    then show "handle x < fresh (Q st')"
      using queue_inv_fresh[OF qi, of x] by (auto simp: fr new_def)
  next
    fix x assume "x \<in> set (entries (Q st'))"
    then have "x \<in> set (entries (Q st)) \<or> x = new" by (auto simp: ent)
    then show "QMapping st' (val x) = Some (Some (handle x))"
      using queue_inv_live[OF qi, of x] nv[of x] by (auto simp: qm new_def)
  next
    fix va h' assume a: "QMapping st' va = Some (Some h')"
    show "\<exists>e\<in>set (entries (Q st')). handle e = h' \<and> val e = va"
    proof (cases "va = v")
      case True
      with a have "h' = fresh (Q st)" by (simp add: qm)
      with True have "new \<in> set (entries (Q st'))" "handle new = h'" "val new = va"
        by (simp_all add: ent new_def)
      then show ?thesis by blast
    next
      case False
      with a have "QMapping st va = Some (Some h')" by (simp add: qm)
      from queue_inv_entry[OF qi this] obtain x where "x \<in> set (entries (Q st))" "handle x = h'" "val x = va"
        by auto
      then have "x \<in> set (entries (Q st'))" "handle x = h'" "val x = va" by (simp_all add: ent)
      then show ?thesis by blast
    qed
  next
    fix x assume "x \<in> set (entries (Q st'))"
    then have "x \<in> set (entries (Q st)) \<or> x = new" by (auto simp: ent)
    then show "distm st' (val x) = Some (Finite (key x))"
      using queue_inv_dist[OF qi, of x] nv[of x] by (auto simp: dm new_def)
  qed
  then show ?thesis by (simp add: st'_def)
qed

lemma relax_effect:
  assumes nn: "nonneg_weights G" and qi: "queue_inv st" and md: "mid m st"
    and a: "arc G (val m) v"
  obtains (skip) w where "weight G (val m) v = Inr (Some w)" "0 \<le> w"
      "relax G Opts m v st = Inr st"
      "Opts \<noteq> None \<or> (\<exists>d. distm st v = Some (Finite d)) \<or> overflow_at \<le> key m + w"
  | (upd) w st' h where "weight G (val m) v = Inr (Some w)" "0 \<le> w"
      "relax G Opts m v st = Inr st'"
      "QMapping st v \<noteq> Some None"
      "distm st' = (distm st)(v \<mapsto> Finite (key m + w))"
      "prev st' = (prev st)(v \<mapsto> Node (val m))"
      "QMapping st' = (QMapping st)(v \<mapsto> Some h)"
      "queue_inv st'"
      "\<forall>e \<in> set (entries (Q st')). key m \<le> key e"
proof -
  from nonneg_weights_arc[OF nn a] obtain w where w: "weight G (val m) v = Inr (Some w)" "0 \<le> w"
    by auto
  define over where "over = (case Opts of None \<Rightarrow> False | Some opts \<Rightarrow> key m + w > maxCumulWeight opts)"
  define lt where "lt = (case (case distm st v of None \<Rightarrow> Infinity | Some d \<Rightarrow> d) of
                     Infinity \<Rightarrow> True | Finite d \<Rightarrow> key m + w < d)"
  define st1 where "st1 = st\<lparr>distm := (distm st)(v \<mapsto> Finite (key m + w)), prev := (prev st)(v \<mapsto> Node (val m))\<rparr>"
  have unf: "relax G Opts m v st =
     (if over then Inr st
      else if lt then
        (case QMapping st v of
                 Some (Some vINode) \<Rightarrow>
                   (case decreaseKey vINode (key m + w) (Q st) of
                      Inl e \<Rightarrow> Inl e
                    | Inr Q' \<Rightarrow> Inr (st1\<lparr>Q := Q'\<rparr>))
               | _ \<Rightarrow>
                   (case insert_heap (key m + w) v (Q st) of
                      (h, Q') \<Rightarrow> Inr (st1\<lparr>Q := Q', QMapping := (QMapping st)(v \<mapsto> Some h)\<rparr>)))
      else Inr st)"
    if "\<not> overflow_at \<le> key m + w"
    unfolding relax_def over_def lt_def st1_def Let_def plus_number_def using w that
    by (simp split: option.split)
  show thesis
  proof (cases "overflow_at \<le> key m + w")
    case True
    then have "relax G Opts m v st = Inr st"
      using w by (simp add: relax_def plus_number_def)
    then show thesis using skip w True by blast
  next
  case fits: False
  note unf = unf[OF fits]
  show thesis
  proof (cases over)
    case True
    then have "relax G Opts m v st = Inr st" "Opts \<noteq> None"
      by (auto simp: unf over_def split: option.splits)
    then show thesis using skip w by blast
  next
    case nb: False
    show thesis
    proof (cases lt)
      case False
      then have "relax G Opts m v st = Inr st"
        using nb by (simp add: unf)
      moreover from False have "\<exists>d. distm st v = Some (Finite d)"
        by (auto simp: lt_def split: option.splits distance.splits)
      ultimately show thesis using skip w by blast
    next
      case True
      have nf: "QMapping st v \<noteq> Some None"
      proof
        assume "QMapping st v = Some None"
        with md obtain d where "distm st v = Some (Finite d)" "d \<le> key m" by (auto simp: mid_def)
        with True w show False by (simp add: lt_def)
      qed
      have keys: "\<forall>e \<in> set (entries (Q st)). key m \<le> key e" using md by (simp add: mid_def)
      have le: "key m \<le> key m + w" using w by simp
      show thesis
      proof (cases "\<exists>h. QMapping st v = Some (Some h)")
        case True
        then obtain h where h: "QMapping st v = Some (Some h)" by auto
        from queue_inv_entry[OF qi h] obtain e where e: "e \<in> set (entries (Q st))" "handle e = h" "val e = v"
          by auto
        from queue_inv_dist[OF qi e(1)] e have d: "distm st v = Some (Finite (key e))" by simp
        with \<open>lt\<close> have "key m + w < key e" by (simp add: lt_def)
        from queue_inv_decreaseKey[OF qi h d this, of "(prev st)(v \<mapsto> Node (val m))"]
        obtain Q' where Q': "decreaseKey h (key m + w) (Q st) = Inr Q'"
          "queue_inv (st1\<lparr>Q := Q'\<rparr>)"
          "\<forall>e' \<in> set (entries Q'). key e' = key m + w \<or> e' \<in> set (entries (Q st))"
          by (auto simp: st1_def)
        have r: "relax G Opts m v st = Inr (st1\<lparr>Q := Q'\<rparr>)"
          using nb \<open>lt\<close> h Q'(1) by (simp add: unf)
        have "QMapping (st1\<lparr>Q := Q'\<rparr>) = (QMapping st)(v \<mapsto> Some h)"
          using h by (auto simp: st1_def)
        moreover have "\<forall>e \<in> set (entries (Q (st1\<lparr>Q := Q'\<rparr>))). key m \<le> key e"
          using Q'(3) keys le by auto
        ultimately show thesis
          using upd[OF w r nf _ _ _ Q'(2)] by (simp add: st1_def)
      next
        case False
        then have nl: "\<forall>h. QMapping st v \<noteq> Some (Some h)" by simp
        define st2 where "st2 = st1\<lparr>Q := snd (insert_heap (key m + w) v (Q st)),
             QMapping := (QMapping st)(v \<mapsto> Some (fst (insert_heap (key m + w) v (Q st))))\<rparr>"
        have qi2: "queue_inv st2"
          using queue_inv_insert[OF qi nl, of "key m + w" "(prev st)(v \<mapsto> Node (val m))"]
          by (simp add: st2_def st1_def)
        have r: "relax G Opts m v st = Inr st2"
          using nb \<open>lt\<close> nl nf
          by (auto simp: unf st2_def split: option.splits prod.splits)
        have "\<forall>e \<in> set (entries (Q st2)). key m \<le> key e"
          using keys le by (auto simp: st2_def insert_heap_def)
        then show thesis
          using upd[OF w r nf _ _ _ qi2] by (simp add: st2_def st1_def)
      qed
    qed
  qed
  qed
qed

lemma trail_fun_upd: "v \<notin> set r \<Longrightarrow> trail (prv(v \<mapsto> x)) r = trail prv r"
  by (induction prv r rule: trail.induct) auto

lemma pathWeight_snoc:
  "pathWeight G (p @ [x]) = Some d \<Longrightarrow> weight G x y = Inr (Some w) \<Longrightarrow>
     pathWeight G (p @ [x, y]) = Some (d + w)"
proof (induction G p arbitrary: d rule: pathWeight.induct)
  case (1 G)
  then show ?case by simp
next
  case (2 G a)
  then show ?case by (auto split: sum.splits option.splits)
next
  case (3 G a b p)
  then show ?case by (auto split: sum.splits option.splits)
qed

lemma arc_universe: "arc G u v \<Longrightarrow> v \<in> universe G s"
proof -
  assume "arc G u v"
  then obtain ns where ns: "map_of (adj G) u = Some ns" "v \<in> set ns"
    by (auto simp: arc_def split: option.splits)
  then have "(u, ns) \<in> set (adj G)" by (auto dest: map_of_SomeD)
  then have "ns \<in> snd ` set (adj G)" by force
  with ns(2) show ?thesis by (auto simp: universe_def)
qed

lemma source_settled:
  assumes "path_inv G s st" "mid m st"
  shows "QMapping st s = Some None"
proof -
  from assms(2) have d: "distm st (val m) = Some (Finite (key m))" and f: "QMapping st (val m) = Some None"
    by (auto simp: mid_def)
  from assms(1) d obtain r where r: "last (val m # r) = s" "\<forall>x \<in> set r. QMapping st x = Some None"
    unfolding path_inv_def by blast
  show ?thesis
  proof (cases r)
    case Nil
    with r f show ?thesis by simp
  next
    case (Cons a r')
    then have "last r \<in> set r" by simp
    with r Cons show ?thesis by auto
  qed
qed

lemma relax_preserves:
  assumes nn: "nonneg_weights G" and li: "loop_inv G s st" and md: "mid m st"
    and a: "arc G (val m) v"
  shows "\<exists>st'. relax G Opts m v st = Inr st' \<and> loop_inv G s st' \<and> mid m st'
     \<and> (\<forall>u. QMapping st' u = Some None \<longleftrightarrow> QMapping st u = Some None)
     \<and> (\<forall>u. QMapping st u = Some None \<longrightarrow> distm st' u = distm st u)
     \<and> (\<forall>u. QMapping st u \<noteq> None \<longrightarrow> QMapping st' u \<noteq> None)
     \<and> (\<forall>B. B < overflow_at \<longrightarrow> dist_bound B st \<longrightarrow>
            (\<forall>w. weight G (val m) v = Inr (Some w) \<longrightarrow> key m + w \<le> B) \<longrightarrow>
            dist_bound B st' \<and> (Opts = None \<longrightarrow> QMapping st' v \<noteq> None))"
proof -
  from li have qi: "queue_inv st" and pi: "pred_inv G st" and ri: "reached_inv s st"
    and di: "dom_inv G s st" and pa: "path_inv G s st"
    by (simp_all add: loop_inv_def)
  from nn qi md a show ?thesis
  proof (cases rule: relax_effect[where Opts = Opts])
    case (skip w)
    have "Opts = None \<longrightarrow> QMapping st v \<noteq> None"
      if "B < overflow_at" "\<forall>w. weight G (val m) v = Inr (Some w) \<longrightarrow> key m + w \<le> B" for B
    proof -
      from that skip(1) have "\<not> overflow_at \<le> key m + w" by fastforce
      with skip(4) ri show ?thesis unfolding reached_inv_def by blast
    qed
    with skip li md show ?thesis by simp
  next
    case (upd w st' h)
    have fm: "QMapping st (val m) = Some None" and dm: "distm st (val m) = Some (Finite (key m))"
      using md by (simp_all add: mid_def)
    have vm: "val m \<noteq> v" using fm upd(4) by auto
    have fs: "QMapping st s = Some None" by (rule source_settled[OF pa md])
    have vs: "s \<noteq> v" using fs upd(4) by auto
    have fin: "QMapping st' u = Some None \<longleftrightarrow> QMapping st u = Some None" for u
      using upd(4,7) by auto
    have finD: "u \<noteq> v" if "QMapping st u = Some None" for u using that upd(4) by auto
    have mid': "mid m st'"
      unfolding mid_def
    proof (intro conjI allI impI)
      show "QMapping st' (val m) = Some None" using fm fin by simp
      show "distm st' (val m) = Some (Finite (key m))" using dm vm upd(5) by simp
      show "\<forall>e\<in>set (entries (Q st')). key m \<le> key e" by (rule upd(9))
    next
      fix u assume "QMapping st' u = Some None"
      then have u: "QMapping st u = Some None" using fin by simp
      with md obtain d where "distm st u = Some (Finite d)" "d \<le> key m" by (auto simp: mid_def)
      then show "\<exists>d. distm st' u = Some (Finite d) \<and> d \<le> key m"
        using finD[OF u] upd(5) by simp
    qed
    have pred': "pred_inv G st'"
      unfolding pred_inv_def
    proof (intro allI impI)
      fix x u assume p: "prev st' x = Some (Node u)"
      show "QMapping st' u = Some None \<and>
           (\<exists>du w. distm st' u = Some (Finite du) \<and> weight G u x = Inr (Some w)
              \<and> distm st' x = Some (Finite (du + w)))"
      proof (cases "x = v")
        case True
        with p upd(6) have "u = val m" by simp
        then show ?thesis using True fm fin dm vm upd(1,5) by simp
      next
        case False
        with p upd(6) have "prev st x = Some (Node u)" by simp
        with pi have u: "QMapping st u = Some None"
          and "\<exists>du w. distm st u = Some (Finite du) \<and> weight G u x = Inr (Some w)
              \<and> distm st x = Some (Finite (du + w))"
          unfolding pred_inv_def by blast+
        then show ?thesis using False finD[OF u] fin upd(5) by simp
      qed
    qed
    have reached': "reached_inv s st'"
      unfolding reached_inv_def
    proof (intro conjI allI impI)
      show "distm st' s = Some (Finite 0)" using ri vs upd(5) by (simp add: reached_inv_def)
    next
      fix x d assume "distm st' x = Some (Finite d)"
      then show "x = s \<or> (\<exists>u. prev st' x = Some (Node u))"
        using ri upd(5,6) unfolding reached_inv_def by (cases "x = v") auto
    next
      fix x d assume "distm st' x = Some (Finite d)"
      then show "QMapping st' x \<noteq> None"
        using ri upd(5,7) unfolding reached_inv_def by (cases "x = v") auto
    qed
    have dom': "dom_inv G s st'"
      unfolding dom_inv_def
    proof (intro allI impI)
      fix x assume "QMapping st' x \<noteq> None"
      then show "x \<in> universe G s"
        using di arc_universe[OF a, of s] upd(7) unfolding dom_inv_def by (cases "x = v") auto
    qed
    have path': "path_inv G s st'"
      unfolding path_inv_def
    proof (intro allI impI)
      fix x d assume dx: "distm st' x = Some (Finite d)"
      show "\<exists>r. trail (prev st') (x # r) \<and> last (x # r) = s
            \<and> pathWeight G (rev (x # r)) = Some d
            \<and> (\<forall>y \<in> set r. QMapping st' y = Some None)"
      proof (cases "x = v")
        case True
        with dx upd(5) have d: "d = key m + w" by simp
        from pa dm obtain r where r: "trail (prev st) (val m # r)" "last (val m # r) = s"
          "pathWeight G (rev (val m # r)) = Some (key m)" "\<forall>y \<in> set r. QMapping st y = Some None"
          unfolding path_inv_def by blast
        have "v \<notin> set (val m # r)" using vm r(4) upd(4) by auto
        then have eq: "trail ((prev st)(v \<mapsto> Node (val m))) (val m # r) = trail (prev st) (val m # r)"
          by (rule trail_fun_upd)
        have t: "trail (prev st') (val m # r)"
          unfolding upd(6) eq by (rule r(1))
        have "pathWeight G (rev r @ [val m, v]) = Some (key m + w)"
          using pathWeight_snoc[of G "rev r" "val m" "key m" v w] r(3) upd(1) by simp
        then have "trail (prev st') (v # val m # r) \<and> last (v # val m # r) = s
            \<and> pathWeight G (rev (v # val m # r)) = Some d
            \<and> (\<forall>y \<in> set (val m # r). QMapping st' y = Some None)"
          using t r(2,4) fm fin d upd(6) by simp
        then show ?thesis using True by blast
      next
        case False
        with dx upd(5) have "distm st x = Some (Finite d)" by simp
        with pa obtain r where r: "trail (prev st) (x # r)" "last (x # r) = s"
          "pathWeight G (rev (x # r)) = Some d" "\<forall>y \<in> set r. QMapping st y = Some None"
          unfolding path_inv_def by blast
        have "v \<notin> set (x # r)" using False r(4) upd(4) by auto
        then have eq: "trail ((prev st)(v \<mapsto> Node (val m))) (x # r) = trail (prev st) (x # r)"
          by (rule trail_fun_upd)
        have "trail (prev st') (x # r)"
          unfolding upd(6) eq by (rule r(1))
        then show ?thesis using r fin by blast
      qed
    qed
    have "loop_inv G s st'"
      using upd(8) pred' reached' dom' path' by (simp add: loop_inv_def)
    moreover have "\<forall>u. QMapping st u = Some None \<longrightarrow> distm st' u = distm st u"
      using finD upd(5) by auto
    moreover have "\<forall>u. QMapping st u \<noteq> None \<longrightarrow> QMapping st' u \<noteq> None"
      using upd(7) by auto
    moreover have "QMapping st' v \<noteq> None" using upd(7) by simp
    moreover have "dist_bound B st'"
      if "dist_bound B st" "\<forall>w. weight G (val m) v = Inr (Some w) \<longrightarrow> key m + w \<le> B" for B
      using that upd(1,5) unfolding dist_bound_def by auto
    ultimately show ?thesis using upd(3) mid' fin by blast
  qed
qed

lemma progress_refl: "progress st st"
  by (simp add: progress_def)

lemma progress_trans: "progress a b \<Longrightarrow> progress b c \<Longrightarrow> progress a c"
  unfolding progress_def by metis

lemma mid_settled: "mid m st \<Longrightarrow> settled_inv st"
  unfolding mid_def settled_inv_def by (meson order_trans)

lemma relax_prev_dom:
  "relax G Opts m v st = Inr st' \<Longrightarrow> prev st u \<noteq> None \<Longrightarrow> prev st' u \<noteq> None"
  by (auto simp: relax_def Let_def
      split: sum.splits option.splits if_splits prod.splits distance.splits)

lemma relax_all_preserves:
  assumes nn: "nonneg_weights G"
  shows "loop_inv G s st \<Longrightarrow> mid m st \<Longrightarrow> \<forall>v \<in> set vs. arc G (val m) v \<Longrightarrow>
    \<exists>st'. relax_all G Opts m vs st = Inr st' \<and> loop_inv G s st' \<and> mid m st'
     \<and> (\<forall>u. QMapping st' u = Some None \<longleftrightarrow> QMapping st u = Some None)
     \<and> progress st st'
     \<and> (\<forall>B. B < overflow_at \<longrightarrow> dist_bound B st \<longrightarrow>
            (\<forall>v \<in> set vs. \<forall>w. weight G (val m) v = Inr (Some w) \<longrightarrow> key m + w \<le> B) \<longrightarrow>
            dist_bound B st' \<and> (Opts = None \<longrightarrow> (\<forall>v \<in> set vs. QMapping st' v \<noteq> None)))"
proof (induction vs arbitrary: st)
  case Nil
  then show ?case by (simp add: progress_refl)
next
  case (Cons v vs)
  from Cons.prems have a: "arc G (val m) v" by simp
  from relax_preserves[OF nn Cons.prems(1,2) a, of Opts]
  obtain st1 where st1: "relax G Opts m v st = Inr st1" "loop_inv G s st1" "mid m st1"
     "\<forall>u. QMapping st1 u = Some None \<longleftrightarrow> QMapping st u = Some None"
     "\<forall>u. QMapping st u = Some None \<longrightarrow> distm st1 u = distm st u"
     "\<forall>u. QMapping st u \<noteq> None \<longrightarrow> QMapping st1 u \<noteq> None"
     "\<forall>B. B < overflow_at \<longrightarrow> dist_bound B st \<longrightarrow>
            (\<forall>w. weight G (val m) v = Inr (Some w) \<longrightarrow> key m + w \<le> B) \<longrightarrow>
            dist_bound B st1 \<and> (Opts = None \<longrightarrow> QMapping st1 v \<noteq> None)"
    by blast
  have p1: "progress st st1"
    unfolding progress_def using st1(4,5,6) relax_prev_dom[OF st1(1)] by blast
  from Cons.IH[OF st1(2,3)] Cons.prems(3)
  obtain st2 where st2: "relax_all G Opts m vs st1 = Inr st2" "loop_inv G s st2" "mid m st2"
     "\<forall>u. QMapping st2 u = Some None \<longleftrightarrow> QMapping st1 u = Some None"
     "progress st1 st2"
     "\<forall>B. B < overflow_at \<longrightarrow> dist_bound B st1 \<longrightarrow>
            (\<forall>v \<in> set vs. \<forall>w. weight G (val m) v = Inr (Some w) \<longrightarrow> key m + w \<le> B) \<longrightarrow>
            dist_bound B st2 \<and> (Opts = None \<longrightarrow> (\<forall>v \<in> set vs. QMapping st2 v \<noteq> None))"
    by auto
  have "relax_all G Opts m (v # vs) st = Inr st2" using st1(1) st2(1) by simp
  moreover have "progress st st2" using p1 st2(5) by (rule progress_trans)
  moreover have "dist_bound B st2 \<and> (Opts = None \<longrightarrow> (\<forall>x \<in> set (v # vs). QMapping st2 x \<noteq> None))"
    if b: "B < overflow_at" "dist_bound B st"
      "\<forall>x \<in> set (v # vs). \<forall>w. weight G (val m) x = Inr (Some w) \<longrightarrow> key m + w \<le> B" for B
  proof -
    from b have 1: "dist_bound B st1" "Opts = None \<longrightarrow> QMapping st1 v \<noteq> None"
      using st1(7) by auto
    from b 1(1) have 2: "dist_bound B st2" "Opts = None \<longrightarrow> (\<forall>x \<in> set vs. QMapping st2 x \<noteq> None)"
      using st2(6) by auto
    from 1(2) st2(5) have "Opts = None \<longrightarrow> QMapping st2 v \<noteq> None"
      unfolding progress_def by blast
    with 2 show ?thesis by auto
  qed
  ultimately show ?case using st2(2,3,4) st1(4) by auto
qed

lemma extract_preserves:
  assumes li: "loop_inv G s st" and si: "settled_inv st" and ne: "\<not> isEmpty (Q st)"
  shows "\<exists>m. extractMinimum tb (Q st)
               = (Some m, (Q st)\<lparr>entries := filter (\<lambda>x. handle x \<noteq> handle m) (entries (Q st))\<rparr>)
           \<and> QMapping st (val m) = Some (Some (handle m))
           \<and> val m \<in> universe G s
           \<and> loop_inv G s (st\<lparr>Q := (Q st)\<lparr>entries := filter (\<lambda>x. handle x \<noteq> handle m) (entries (Q st))\<rparr>,
                                QMapping := (QMapping st)(val m \<mapsto> None)\<rparr>)
           \<and> mid m (st\<lparr>Q := (Q st)\<lparr>entries := filter (\<lambda>x. handle x \<noteq> handle m) (entries (Q st))\<rparr>,
                                QMapping := (QMapping st)(val m \<mapsto> None)\<rparr>)"
proof -
  from li have qi: "queue_inv st" and pi: "pred_inv G st" and ri: "reached_inv s st"
    and di: "dom_inv G s st" and pa: "path_inv G s st"
    by (simp_all add: loop_inv_def)
  from ne have "entries (Q st) \<noteq> []" by (simp add: isEmpty_def)
  from extractMinimum_nonempty[OF this, of tb]
  obtain m where m: "extractMinimum tb (Q st)
               = (Some m, (Q st)\<lparr>entries := filter (\<lambda>x. handle x \<noteq> handle m) (entries (Q st))\<rparr>)"
    "m \<in> set (entries (Q st))" "\<forall>e \<in> set (entries (Q st)). key m \<le> key e"
    by blast
  define st1 where "st1 = st\<lparr>Q := (Q st)\<lparr>entries := filter (\<lambda>x. handle x \<noteq> handle m) (entries (Q st))\<rparr>,
                                QMapping := (QMapping st)(val m \<mapsto> None)\<rparr>"
  have ent: "entries (Q st1) = filter (\<lambda>x. handle x \<noteq> handle m) (entries (Q st))"
    and fr: "fresh (Q st1) = fresh (Q st)"
    and qm: "QMapping st1 = (QMapping st)(val m \<mapsto> None)"
    and dm: "distm st1 = distm st" and pv: "prev st1 = prev st"
    by (simp_all add: st1_def)
  have lm: "QMapping st (val m) = Some (Some (handle m))" by (rule queue_inv_live[OF qi m(2)])
  have dmm: "distm st (val m) = Some (Finite (key m))" by (rule queue_inv_dist[OF qi m(2)])
  have um: "val m \<in> universe G s" using di lm by (simp add: dom_inv_def)
  have other: "val x \<noteq> val m" if "x \<in> set (entries (Q st1))" for x
  proof
    assume "val x = val m"
    moreover from that have x: "x \<in> set (entries (Q st))" "handle x \<noteq> handle m" by (simp_all add: ent)
    ultimately have "x = m" using queue_inv_val_inj[OF qi x(1) m(2)] by simp
    with x(2) show False by simp
  qed
  have fin: "QMapping st1 u = Some None \<longleftrightarrow> u = val m \<or> QMapping st u = Some None" for u
    using lm by (auto simp: qm)
  have qi1: "queue_inv st1"
  proof (rule queue_invI)
    show "distinct (map handle (entries (Q st1)))"
      using queue_inv_distinct[OF qi] by (simp add: ent distinct_map_filter)
  next
    fix x assume "x \<in> set (entries (Q st1))"
    then show "handle x < fresh (Q st1)" using queue_inv_fresh[OF qi, of x] by (simp add: ent fr)
  next
    fix x assume x: "x \<in> set (entries (Q st1))"
    then have "x \<in> set (entries (Q st))" by (simp add: ent)
    from queue_inv_live[OF qi this] other[OF x]
    show "QMapping st1 (val x) = Some (Some (handle x))" by (simp add: qm)
  next
    fix v h assume a: "QMapping st1 v = Some (Some h)"
    then have vm: "v \<noteq> val m" by (auto simp: qm)
    with a have "QMapping st v = Some (Some h)" by (simp add: qm)
    from queue_inv_entry[OF qi this] obtain x where x: "x \<in> set (entries (Q st))" "handle x = h" "val x = v"
      by auto
    have "handle x \<noteq> handle m"
    proof
      assume "handle x = handle m"
      then have "x = m" using queue_inv_handle_inj[OF qi x(1) m(2)] by simp
      with x(3) vm show False by simp
    qed
    with x have "x \<in> set (entries (Q st1))" by (simp add: ent)
    with x show "\<exists>e\<in>set (entries (Q st1)). handle e = h \<and> val e = v" by blast
  next
    fix x assume "x \<in> set (entries (Q st1))"
    then have "x \<in> set (entries (Q st))" by (simp add: ent)
    from queue_inv_dist[OF qi this] show "distm st1 (val x) = Some (Finite (key x))" by (simp add: dm)
  qed
  have pi1: "pred_inv G st1"
    using pi unfolding pred_inv_def by (simp add: pv dm fin)
  have ri1: "reached_inv s st1"
    using ri unfolding reached_inv_def by (simp add: pv dm qm)
  have di1: "dom_inv G s st1"
    using di um unfolding dom_inv_def by (auto simp: qm)
  have pa1: "path_inv G s st1"
    unfolding path_inv_def
  proof (intro allI impI)
    fix v d assume "distm st1 v = Some (Finite d)"
    then have "distm st v = Some (Finite d)" by (simp add: dm)
    with pa obtain r where "trail (prev st) (v # r)" "last (v # r) = s"
      "pathWeight G (rev (v # r)) = Some d" "\<forall>x \<in> set r. QMapping st x = Some None"
      unfolding path_inv_def by blast
    then have "trail (prev st1) (v # r) \<and> last (v # r) = s \<and>
           pathWeight G (rev (v # r)) = Some d \<and> (\<forall>x\<in>set r. QMapping st1 x = Some None)"
      by (simp add: pv fin)
    then show "\<exists>r. trail (prev st1) (v # r) \<and> last (v # r) = s \<and>
           pathWeight G (rev (v # r)) = Some d \<and> (\<forall>x\<in>set r. QMapping st1 x = Some None)" ..
  qed
  have md1: "mid m st1"
    unfolding mid_def
  proof (intro conjI allI impI)
    show "QMapping st1 (val m) = Some None" by (simp add: qm)
    show "distm st1 (val m) = Some (Finite (key m))" by (simp add: dm dmm)
    show "\<forall>e\<in>set (entries (Q st1)). key m \<le> key e" using m(3) by (simp add: ent)
  next
    fix u assume "QMapping st1 u = Some None"
    then consider "u = val m" | "QMapping st u = Some None" using fin by blast
    then show "\<exists>d. distm st1 u = Some (Finite d) \<and> d \<le> key m"
    proof cases
      case 1
      then show ?thesis by (simp add: dm dmm)
    next
      case 2
      with si obtain d where "distm st u = Some (Finite d)" "\<forall>e \<in> set (entries (Q st)). d \<le> key e"
        unfolding settled_inv_def by blast
      with m(2) show ?thesis by (auto simp: dm)
    qed
  qed
  have "loop_inv G s st1" using qi1 pi1 ri1 di1 pa1 by (simp add: loop_inv_def)
  then show ?thesis using m(1) lm um md1 unfolding st1_def by blast
qed

lemma finite_universe: "finite (universe G s)"
  by (simp add: universe_def)

lemma neighbours_arc:
  "v \<in> set (case neighborsIterator G u of None \<Rightarrow> [] | Some vs \<Rightarrow> vs) \<longleftrightarrow> arc G u v"
  by (simp add: neighborsIterator_def arc_def split: option.splits)

lemma iteration_preserves:
  assumes nn: "nonneg_weights G" and li: "loop_inv G s st" and si: "settled_inv st"
    and ne: "\<not> isEmpty (Q st)"
  obtains (break) m st1 where "fst (extractMinimum (tie H) (Q st)) = Some m"
      "t = Some (val m)" "iteration H G t Opts st = Break st1"
      "loop_inv G s st1" "settled_inv st1" "progress st st1"
      "QMapping st1 (val m) = Some None" "distm st1 = distm st"
  | (continue) m st2 where "fst (extractMinimum (tie H) (Q st)) = Some m"
      "t \<noteq> Some (val m)" "iteration H G t Opts st = Continue st2"
      "loop_inv G s st2" "settled_inv st2" "progress st st2"
      "\<forall>u. QMapping st2 u = Some None \<longleftrightarrow> u = val m \<or> QMapping st u = Some None"
      "QMapping st (val m) \<noteq> Some None" "val m \<in> universe G s"
      "distm st2 (val m) = distm st (val m)"
      "\<forall>W. small G s W \<longrightarrow> bound_inv G s W st \<longrightarrow>
           bound_inv G s W st2 \<and> (Opts = None \<longrightarrow> complete_inv G st \<longrightarrow> complete_inv G st2)"
proof -
  from extract_preserves[OF li si ne, of "tie H"]
  obtain m where m: "extractMinimum (tie H) (Q st)
               = (Some m, (Q st)\<lparr>entries := filter (\<lambda>x. handle x \<noteq> handle m) (entries (Q st))\<rparr>)"
      "QMapping st (val m) = Some (Some (handle m))"
      "val m \<in> universe G s"
      "loop_inv G s (st\<lparr>Q := (Q st)\<lparr>entries := filter (\<lambda>x. handle x \<noteq> handle m) (entries (Q st))\<rparr>,
                                QMapping := (QMapping st)(val m \<mapsto> None)\<rparr>)"
      "mid m (st\<lparr>Q := (Q st)\<lparr>entries := filter (\<lambda>x. handle x \<noteq> handle m) (entries (Q st))\<rparr>,
                                QMapping := (QMapping st)(val m \<mapsto> None)\<rparr>)"
    by blast
  define st1 where "st1 = st\<lparr>Q := (Q st)\<lparr>entries := filter (\<lambda>x. handle x \<noteq> handle m) (entries (Q st))\<rparr>,
                                QMapping := (QMapping st)(val m \<mapsto> None)\<rparr>"
  have li1: "loop_inv G s st1" and md1: "mid m st1" using m(4,5) by (simp_all add: st1_def)
  have qm: "QMapping st1 = (QMapping st)(val m \<mapsto> None)" and dm: "distm st1 = distm st"
    and pv: "prev st1 = prev st"
    by (simp_all add: st1_def)
  have p1: "progress st st1"
    unfolding progress_def by (auto simp: qm dm pv m(2))
  have fm: "fst (extractMinimum (tie H) (Q st)) = Some m" by (simp add: m(1))
  show thesis
  proof (cases "t = Some (val m)")
    case True
    then have "iteration H G t Opts st = Break st1"
      by (simp add: iteration_def m(1) st1_def)
    then show thesis
      using break[OF fm True _ li1 mid_settled[OF md1] p1] by (simp add: qm dm)
  next
    case False
    define vs where "vs = (case neighborsIterator G (val m) of None \<Rightarrow> [] | Some vs \<Rightarrow> vs)"
    have "\<forall>v \<in> set vs. arc G (val m) v" unfolding vs_def using neighbours_arc by blast
    from relax_all_preserves[OF nn li1 md1 this, of Opts]
    obtain st2 where st2: "relax_all G Opts m vs st1 = Inr st2" "loop_inv G s st2" "mid m st2"
     "\<forall>u. QMapping st2 u = Some None \<longleftrightarrow> QMapping st1 u = Some None"
     "progress st1 st2"
     "\<forall>B. B < overflow_at \<longrightarrow> dist_bound B st1 \<longrightarrow>
            (\<forall>v \<in> set vs. \<forall>w. weight G (val m) v = Inr (Some w) \<longrightarrow> key m + w \<le> B) \<longrightarrow>
            dist_bound B st2 \<and> (Opts = None \<longrightarrow> (\<forall>v \<in> set vs. QMapping st2 v \<noteq> None))"
      by blast
    have it: "iteration H G t Opts st = Continue st2"
      using False st2(1) by (simp add: iteration_def m(1) st1_def[symmetric] vs_def[symmetric] Let_def)
    have fin: "\<forall>u. QMapping st2 u = Some None \<longleftrightarrow> u = val m \<or> QMapping st u = Some None"
      using st2(4) m(2) by (auto simp: qm)
    have p2: "progress st st2" using p1 st2(5) by (rule progress_trans)
    have "distm st2 (val m) = distm st1 (val m)"
      using st2(5) unfolding progress_def by (simp add: qm)
    then have dmm: "distm st2 (val m) = distm st (val m)" by (simp add: dm)
    have dmm0: "distm st (val m) = Some (Finite (key m))"
      using md1 by (simp add: mid_def dm)
    have cmp: "\<forall>W. small G s W \<longrightarrow> bound_inv G s W st \<longrightarrow>
           bound_inv G s W st2 \<and> (Opts = None \<longrightarrow> complete_inv G st \<longrightarrow> complete_inv G st2)"
    proof (intro allI impI conjI)
      fix W assume sm: "small G s W" and bi: "bound_inv G s W st"
      define B where "B = real (settled_count G s st1) * W"
      have W0: "0 \<le> W" using sm by (simp add: small_def)
      have set1: "{u \<in> universe G s. QMapping st1 u = Some None}
                = insert (val m) {u \<in> universe G s. QMapping st u = Some None}"
        using m(3) by (auto simp: qm)
      have cnt1: "settled_count G s st1 = Suc (settled_count G s st)"
        unfolding settled_count_def set1 using m(2) by (simp add: finite_universe)
      have "{u \<in> universe G s. QMapping st1 u = Some None} \<subseteq> universe G s" by blast
      then have "settled_count G s st1 \<le> card (universe G s)"
        unfolding settled_count_def by (simp add: card_mono finite_universe)
      then have "B \<le> real (card (universe G s)) * W"
        unfolding B_def using W0 by (simp add: mult_right_mono)
      then have Bo: "B < overflow_at" using sm by (simp add: small_def)
      have km: "key m \<le> real (settled_count G s st) * W"
        using bi dmm0 unfolding bound_inv_def dist_bound_def by blast
      have B1: "B = real (settled_count G s st) * W + W"
        by (simp add: B_def cnt1 algebra_simps)
      have db1: "dist_bound B st1"
        using bi W0 unfolding bound_inv_def dist_bound_def B1 dm
        by (metis add_increasing2)
      have arcs: "\<forall>v \<in> set vs. \<forall>w. weight G (val m) v = Inr (Some w) \<longrightarrow> key m + w \<le> B"
        using sm km unfolding small_def B1 by (meson add_mono)
      from st2(6) Bo db1 arcs
      have r2: "dist_bound B st2" "Opts = None \<longrightarrow> (\<forall>v \<in> set vs. QMapping st2 v \<noteq> None)"
        by blast+
      have "settled_count G s st2 = settled_count G s st1"
        unfolding settled_count_def using st2(4) by simp
      with r2(1) show "bound_inv G s W st2" by (simp add: bound_inv_def B_def)
      assume o: "Opts = None" and c: "complete_inv G st"
      show "complete_inv G st2"
        unfolding complete_inv_def
      proof (intro allI impI)
        fix u v assume f: "QMapping st2 u = Some None" and a: "arc G u v"
        from f fin consider "u = val m" | "QMapping st u = Some None" by blast
        then show "QMapping st2 v \<noteq> None"
        proof cases
          case 1
          with a have "v \<in> set vs" unfolding vs_def using neighbours_arc by blast
          with o r2(2) show ?thesis by blast
        next
          case 2
          with c a have "QMapping st v \<noteq> None" unfolding complete_inv_def by blast
          with p2 show ?thesis unfolding progress_def by blast
        qed
      qed
    qed
    have nf: "QMapping st (val m) \<noteq> Some None" using m(2) by simp
    show thesis
      using continue[OF fm False it st2(2) mid_settled[OF st2(3)] p2 fin nf m(3) dmm cmp] .
  qed
qed

lemma measure_decreases:
  assumes "\<forall>u. QMapping st2 u = Some None \<longleftrightarrow> u = x \<or> QMapping st u = Some None"
    and "QMapping st x \<noteq> Some None" and "x \<in> universe G s"
  shows "card (universe G s - {u. QMapping st2 u = Some None})
         < card (universe G s - {u. QMapping st u = Some None})"
proof (rule psubset_card_mono)
  show "finite (universe G s - {u. QMapping st u = Some None})"
    by (simp add: finite_universe)
  show "universe G s - {u. QMapping st2 u = Some None} \<subset> universe G s - {u. QMapping st u = Some None}"
    using assms by auto
qed

lemma while_loop_total:
  assumes nn: "nonneg_weights G"
  shows "loop_inv G s st \<Longrightarrow> settled_inv st \<Longrightarrow>
    \<exists>st'. while_loop H G t Opts st = Some (Inr st') \<and> loop_inv G s st' \<and> settled_inv st'
      \<and> progress st st'
      \<and> ((\<exists>tv. t = Some tv \<and> QMapping st' tv = Some None)
         \<or> (isEmpty (Q st') \<and> (\<forall>W. Opts = None \<longrightarrow> small G s W \<longrightarrow> bound_inv G s W st \<longrightarrow>
               complete_inv G st \<longrightarrow> complete_inv G st')))"
proof (induction "card (universe G s - {u. QMapping st u = Some None})" arbitrary: st rule: less_induct)
  case less
  show ?case
  proof (cases "isEmpty (Q st)")
    case True
    then have "while_loop H G t Opts st = Some (Inr st)" by (subst while_loop.simps) simp
    with True less.prems show ?thesis by (auto simp: progress_refl)
  next
    case False
    from nn less.prems False show ?thesis
    proof (cases rule: iteration_preserves[where H = H and t = t and Opts = Opts])
      case (break m st1)
      have "while_loop H G t Opts st = Some (Inr st1)"
        using False break(3) by (subst while_loop.simps) simp
      with break show ?thesis by blast
    next
      case (continue m st2)
      have w: "while_loop H G t Opts st = while_loop H G t Opts st2"
        using False continue(3) by (subst while_loop.simps) simp
      have "card (universe G s - {u. QMapping st2 u = Some None})
         < card (universe G s - {u. QMapping st u = Some None})"
        by (rule measure_decreases[OF continue(7,8,9)])
      from less.hyps[OF this continue(4,5)]
      obtain st' where st': "while_loop H G t Opts st2 = Some (Inr st')" "loop_inv G s st'"
        "settled_inv st'" "progress st2 st'"
        "(\<exists>tv. t = Some tv \<and> QMapping st' tv = Some None)
         \<or> (isEmpty (Q st') \<and> (\<forall>W. Opts = None \<longrightarrow> small G s W \<longrightarrow> bound_inv G s W st2 \<longrightarrow>
               complete_inv G st2 \<longrightarrow> complete_inv G st'))"
        by blast
      have "progress st st'" using continue(6) st'(4) by (rule progress_trans)
      moreover have "(\<exists>tv. t = Some tv \<and> QMapping st' tv = Some None)
         \<or> (isEmpty (Q st') \<and> (\<forall>W. Opts = None \<longrightarrow> small G s W \<longrightarrow> bound_inv G s W st \<longrightarrow>
               complete_inv G st \<longrightarrow> complete_inv G st'))"
        using st'(5) continue(11) by blast
      ultimately show ?thesis using w st'(1,2,3) by auto
    qed
  qed
qed



lemma looseEq_refl: "looseEq H s s"
  by (cases s) simp_all

lemma init_nodes_queue: "Q (init_nodes H s es st) = Q st" "QMapping (init_nodes H s es st) = QMapping st"
  by (induction es arbitrary: st) simp_all

lemma init_nodes_prev:
  "prev (init_nodes H s es st) x = (if x \<in> set es then Some nullNode else prev st x)"
  by (induction es arbitrary: st) auto

lemma init_nodes_source: "distm (init_nodes H s es st) s = distm st s"
  by (induction es arbitrary: st) (auto simp: looseEq_refl)

lemma init_nodes_finite:
  "distm (init_nodes H s es st) x = Some (Finite d) \<Longrightarrow> distm st x = Some (Finite d)"
proof (induction es arbitrary: st)
  case Nil
  then show ?case by simp
next
  case (Cons a es)
  from Cons.prems have "distm (init_nodes H s es
       (st\<lparr>prev := (prev st)(a \<mapsto> nullNode),
           distm := (if \<not> looseEq H a s then (distm st)(a \<mapsto> Infinity) else distm st)\<rparr>)) x
      = Some (Finite d)" by simp
  from Cons.IH[OF this] show ?case by (auto split: if_splits)
qed

lemma init_state:
  "Q (init H G s) = \<lparr>entries = [\<lparr>key = 0, val = s, handle = 0\<rparr>], fresh = Suc 0\<rparr>"
  "QMapping (init H G s) = [s \<mapsto> Some 0]"
  "distm (init H G s) s = Some (Finite 0)"
  "distm (init H G s) x = Some (Finite d) \<Longrightarrow> x = s"
  "prev (init H G s) x = (if x \<in> set (nodesIterator G) then Some nullNode else None)"
  by (auto simp: init_def insert_heap_def emptyHeap_def init_nodes_queue init_nodes_prev
        init_nodes_source dest!: init_nodes_finite split: if_splits)

lemma init_inv:
  "loop_inv G s (init H G s)" "settled_inv (init H G s)" "complete_inv G (init H G s)"
proof -
  have q: "queue_inv (init H G s)"
    by (rule queue_invI) (auto simp: init_state split: if_splits)
  have p: "pred_inv G (init H G s)"
    by (auto simp: pred_inv_def init_state)
  have r: "reached_inv s (init H G s)"
    unfolding reached_inv_def using init_state(4)[of H G s] by (auto simp: init_state(1,2,3))
  have d: "dom_inv G s (init H G s)"
    by (auto simp: dom_inv_def init_state universe_def split: if_splits)
  have pa: "path_inv G s (init H G s)"
    unfolding path_inv_def
  proof (intro allI impI)
    fix v d assume a: "distm (init H G s) v = Some (Finite d)"
    then have v: "v = s" by (rule init_state(4))
    with a have "d = 0" by (simp add: init_state)
    with v have "trail (prev (init H G s)) (v # []) \<and> last (v # []) = s \<and>
           pathWeight G (rev (v # [])) = Some d \<and> (\<forall>x\<in>set []. QMapping (init H G s) x = Some None)"
      by (simp add: init_state)
    then show "\<exists>r. trail (prev (init H G s)) (v # r) \<and> last (v # r) = s \<and>
           pathWeight G (rev (v # r)) = Some d \<and> (\<forall>x\<in>set r. QMapping (init H G s) x = Some None)" ..
  qed
  show "loop_inv G s (init H G s)" using q p r d pa by (simp add: loop_inv_def)
  show "settled_inv (init H G s)" by (auto simp: settled_inv_def init_state split: if_splits)
  show "complete_inv G (init H G s)" by (auto simp: complete_inv_def init_state split: if_splits)
qed




lemma tracePath_loop_trail:
  "trail prv (v # r) \<Longrightarrow> tracePath_loop prv (Node v) acc = Some (rev (v # r) @ acc)"
proof (induction r arbitrary: v acc)
  case Nil
  then show ?case
    by (subst tracePath_loop.simps) (auto simp: tracePath_loop.simps[of _ nullNode])
next
  case (Cons x r)
  then have "prv v = Some (Node x)" "trail prv (x # r)" by simp_all
  with Cons.IH[of x "v # acc"] show ?case
    by (subst tracePath_loop.simps) simp
qed

lemma weight_arc: "weight G u v = Inr w \<Longrightarrow> arc G u v"
  by (auto simp: weight_def split: if_splits)

lemma trail_reachable:
  "pred_inv G st \<Longrightarrow> trail (prev st) (v # r) \<Longrightarrow> reachable G (last (v # r)) v"
proof (induction r arbitrary: v)
  case Nil
  then show ?case by (simp add: reachable.start)
next
  case (Cons x r)
  then have p: "prev st v = Some (Node x)" and t: "trail (prev st) (x # r)" by simp_all
  from Cons.prems(1) p have "arc G x v" unfolding pred_inv_def by (blast intro: weight_arc)
  with Cons.IH[OF Cons.prems(1) t] show ?case by (auto intro: reachable.step)
qed


lemma unreachable_registered_target:
  assumes nn: "nonneg_weights G" and t: "t \<in> set (nodesIterator G)" and nr: "\<not> reachable G s t"
  shows "Dijkstra H G s (Some t) Opts = Some (Inr (Path []))"
proof -
  from while_loop_total[OF nn init_inv(1)[of G s H] init_inv(2)[of H G s], where H = H and t = "Some t" and Opts = Opts]
  obtain st where st: "while_loop H G (Some t) Opts (init H G s) = Some (Inr st)" "loop_inv G s st"
    "progress (init H G s) st"
    by blast
  then have pi: "pred_inv G st" and pa: "path_inv G s st" by (simp_all add: loop_inv_def)
  have "prev (init H G s) t \<noteq> None" using t by (simp add: init_state)
  with st(3) have n: "prev st t \<noteq> None" unfolding progress_def by blast
  have "prev st t \<noteq> Some (Node u)" for u
  proof
    assume u: "prev st t = Some (Node u)"
    with pi obtain d where "distm st t = Some (Finite d)" unfolding pred_inv_def by blast
    with pa obtain r where "trail (prev st) (t # r)" "last (t # r) = s"
      unfolding path_inv_def by blast
    with trail_reachable[OF pi this(1)] nr show False by simp
  qed
  with n have "prev st t = Some nullNode"
    by (metis nodeOrNullNode.exhaust option.exhaust)
  moreover have "t \<noteq> s" using nr reachable.start by auto
  ultimately have "tracePath (prev st) t (Some s) = Some []"
    by (simp add: tracePath_def)
  then show ?thesis using st(1) by (simp add: Dijkstra_def)
qed

lemma source_as_target:
  assumes "truthy s \<or> s \<notin> set (nodesIterator G)"
  shows "Dijkstra H G s (Some s) Opts = Some (Inr (Path [s]))"
proof -
  define st1 where "st1 = (init H G s)\<lparr>Q := (Q (init H G s))\<lparr>entries := []\<rparr>, QMapping := (QMapping (init H G s))(s \<mapsto> None)\<rparr>"
  have "iteration H G (Some s) Opts (init H G s) = Break st1"
    by (simp add: iteration_def extractMinimum_def init_state st1_def)
  then have w: "while_loop H G (Some s) Opts (init H G s) = Some (Inr st1)"
    by (subst while_loop.simps) (simp add: isEmpty_def init_state)
  have pv: "prev st1 s = (if s \<in> set (nodesIterator G) then Some nullNode else None)"
    by (simp add: st1_def init_state)
  have "trail (prev st1) [s]" by (simp add: pv)
  from tracePath_loop_trail[OF this, of "[]"] assms
  have "tracePath (prev st1) s (Some s) = Some [s]"
    by (auto simp: tracePath_def pv)
  then show ?thesis using w by (simp add: Dijkstra_def)
qed

lemma below_trans: "below a b \<Longrightarrow> below b c \<Longrightarrow> below a c"
  by (cases a; cases b; cases c) auto

lemma no_higher_refl: "no_higher st st"
  by (simp add: no_higher_def)

lemma no_higher_trans: "no_higher a b \<Longrightarrow> no_higher b c \<Longrightarrow> no_higher a c"
  unfolding no_higher_def by (metis below_trans)

lemma relax_writes_lower:
  assumes "relax G Opts m v st = Inr st'"
  shows "distm st' u = distm st u \<or> (u = v \<and> below (recorded st' u) (recorded st u))"
proof (cases "weight G (val m) v")
  case (Inl e)
  with assms show ?thesis by (simp add: relax_def)
next
  case (Inr wo)
  show ?thesis
  proof (cases wo)
    case None
    with Inr assms show ?thesis by (simp add: relax_def)
  next
    case (Some w)
    show ?thesis
    proof (cases "plus_number (key m) w")
      case Infinity
      with Inr Some assms show ?thesis by (simp add: relax_def)
    next
      case (Finite alt)
      have "relax G Opts m v st =
         (if (case Opts of None \<Rightarrow> False | Some opts \<Rightarrow> alt > maxCumulWeight opts)
          then Inr st
          else if (case (case distm st v of None \<Rightarrow> Infinity | Some d \<Rightarrow> d) of
                     Infinity \<Rightarrow> True | Finite d \<Rightarrow> alt < d)
          then
            let st1 = st\<lparr>distm := (distm st)(v \<mapsto> Finite alt),
                         prev := (prev st)(v \<mapsto> Node (val m))\<rparr>
            in case QMapping st1 v of
                 Some (Some vINode) \<Rightarrow>
                   (case decreaseKey vINode alt (Q st1) of
                      Inl e \<Rightarrow> Inl e
                    | Inr Q' \<Rightarrow> Inr (st1\<lparr>Q := Q'\<rparr>))
               | _ \<Rightarrow>
                   (case insert_heap alt v (Q st1) of
                      (h, Q') \<Rightarrow>
                        Inr (st1\<lparr>Q := Q', QMapping := (QMapping st1)(v \<mapsto> Some h)\<rparr>))
          else Inr st)"
        by (simp only: relax_def Inr Some Finite sum.case option.case distance.case)
      with assms show ?thesis
        by (auto simp: Let_def recorded_def insert_heap_def
            split: sum.splits option.splits if_splits distance.splits)
    qed
  qed
qed

lemma relax_no_higher: "relax G Opts m v st = Inr st' \<Longrightarrow> no_higher st st'"
  unfolding no_higher_def using relax_writes_lower[of G Opts m v st st']
  by (metis recorded_def)

lemma relax_all_no_higher: "relax_all G Opts m vs st = Inr st' \<Longrightarrow> no_higher st st'"
proof (induction vs arbitrary: st)
  case Nil
  then show ?case by (simp add: no_higher_refl)
next
  case (Cons v vs)
  then show ?case
    by (auto split: sum.splits intro: no_higher_trans relax_no_higher)
qed

lemma iteration_no_higher:
  assumes "iteration H G t Opts st = Continue st' \<or> iteration H G t Opts st = Break st'"
  shows "no_higher st st'"
proof -
  have e: "no_higher st (st\<lparr>Q := q, QMapping := qm\<rparr>)" for q qm
    by (simp add: no_higher_def recorded_def)
  from assms show ?thesis
    by (auto simp: iteration_def Let_def split: prod.splits option.splits if_splits sum.splits
        intro: e no_higher_trans[OF e relax_all_no_higher])
qed

lemma reaches_no_higher: "reaches H G t Opts a b \<Longrightarrow> no_higher a b"
  by (induction rule: reaches.induct)
     (auto intro: no_higher_refl no_higher_trans iteration_no_higher)

lemma while_loop_reaches_aux:
  assumes "while_loop H G t Opts a = Some r"
  shows "\<forall>b. r = Inr b \<longrightarrow> (\<forall>a0. reaches H G t Opts a0 a \<longrightarrow> reaches H G t Opts a0 b)"
proof (rule while_loop.raw_induct[where P = "\<lambda>H G t Opts a r.
         \<forall>b. r = Inr b \<longrightarrow> (\<forall>a0. reaches H G t Opts a0 a \<longrightarrow> reaches H G t Opts a0 b)", OF _ assms])
  fix f :: "host \<Rightarrow> WeightedGraph \<Rightarrow> node option \<Rightarrow> DijkstraOptions option \<Rightarrow> state \<Rightarrow> (error + state) option"
  fix H G t Opts st r
  assume ih: "\<And>H G t Opts st y. f H G t Opts st = Some y \<Longrightarrow>
         \<forall>b. y = Inr b \<longrightarrow> (\<forall>a0. reaches H G t Opts a0 st \<longrightarrow> reaches H G t Opts a0 b)"
    and body: "(if isEmpty (Q st) then Some (Inr st)
      else case iteration H G t Opts st of Throw e \<Rightarrow> Some (Inl e)
           | Break st' \<Rightarrow> Some (Inr st')
           | Continue st' \<Rightarrow> f H G t Opts st') = Some r"
  show "\<forall>b. r = Inr b \<longrightarrow> (\<forall>a0. reaches H G t Opts a0 st \<longrightarrow> reaches H G t Opts a0 b)"
  proof (cases "isEmpty (Q st)")
    case True
    with body show ?thesis by auto
  next
    case False
    show ?thesis
    proof (cases "iteration H G t Opts st")
      case (Throw e)
      with False body show ?thesis by auto
    next
      case (Break st')
      with False body show ?thesis by (auto intro: reaches.exit)
    next
      case (Continue st')
      with False body have "f H G t Opts st' = Some r" by simp
      from ih[OF this]
      have ih': "\<forall>b. r = Inr b \<longrightarrow> (\<forall>a0. reaches H G t Opts a0 st' \<longrightarrow> reaches H G t Opts a0 b)" .
      show ?thesis
      proof (intro allI impI)
        fix b a0 assume r: "r = Inr b" and a: "reaches H G t Opts a0 st"
        from a False Continue have "reaches H G t Opts a0 st'" by (rule reaches.turn)
        with ih' r show "reaches H G t Opts a0 b" by blast
      qed
    qed
  qed
qed

lemma while_loop_reaches:
  "while_loop H G t Opts a = Some (Inr b) \<Longrightarrow> reaches H G t Opts a b"
  using while_loop_reaches_aux[of H G t Opts a "Inr b"] reaches.here by blast

section \<open>The search on all graphs\<close>

lemma scenario_nonneg: "nonneg_weights scenario"
  by (simp add: scenario_eq nonneg_weights_def weightKey_def)


lemma reachable_cases: "reachable G s v \<Longrightarrow> v = s \<or> (\<exists>u. arc G u v)"
  by (induction rule: reachable.induct) auto

lemma scenario_unreachable_Z: "\<not> reachable scenario (Str ''A'') (Str ''Z'')"
proof
  assume "reachable scenario (Str ''A'') (Str ''Z'')"
  then have "\<exists>u. arc scenario u (Str ''Z'')" by (auto dest: reachable_cases)
  then show False by (auto simp: scenario_eq arc_def split: if_splits)
qed

text \<open>
  C1. The claim: for every node \<open>s\<close> of the graph, the search with target \<open>s\<close> from
  source \<open>s\<close>, and \<^verbatim>\<open>tracePath(prev, s, s)\<close> on its predecessor map, return the path
  \<open>[s]\<close>. The code tests \<^verbatim>\<open>source && e === source\<close>, and the node \<open>0\<close> is falsy: on
  the graph whose only node is \<open>0\<close> the search from \<open>0\<close> to \<open>0\<close> returns the empty path,
  and so does \<^verbatim>\<open>tracePath\<close> on the predecessor map that sends \<open>0\<close> to \<^verbatim>\<open>nullNode\<close>.
  (The lemma \<open>source_as_target\<close> above shows the path \<open>[s]\<close> for every other source.)
\<close>

theorem falsy_source_as_target_gives_empty_path:
  "Num 0 \<in> set (nodesIterator (addNode (Num 0) emptyGraph))
   \<and> Dijkstra oldest_first (addNode (Num 0) emptyGraph) (Num 0) (Some (Num 0)) None
       = Some (Inr (Path []))
   \<and> tracePath [Num 0 \<mapsto> nullNode] (Num 0) (Some (Num 0)) = Some []"
  by (simp add: graph_defs search_defs oldest_first_def while_loop.simps tracePath_loop.simps)

theorem falsy_source_as_target_gives_empty_path_witness:
  "Dijkstra oldest_first (addNode (Num 0) emptyGraph) (Num 0) (Some (Num 0)) None
       = Some (Inr (Path []))"
  using falsy_source_as_target_gives_empty_path by simp

text \<open>
  C2. The claim: with non-negative weights, a target that cannot be reached from the
  source, a target that is not a node of the graph included, gives the empty path. On
  the graph of the scenarios the target Z is not a node and cannot be reached from A;
  \<^verbatim>\<open>prev.get("Z")\<close> is \<^verbatim>\<open>undefined\<close>, which is not \<^verbatim>\<open>nullNode\<close>, and the search returns
  the path \<open>[Z]\<close>. (The lemma \<open>unreachable_registered_target\<close> above shows the empty path
  for every unreachable target that is a node of the graph.)
\<close>

theorem unregistered_target_gives_singleton_path:
  "nonneg_weights scenario
   \<and> \<not> reachable scenario (Str ''A'') (Str ''Z'')
   \<and> Dijkstra oldest_first scenario (Str ''A'') (Some (Str ''Z'')) None
       = Some (Inr (Path [Str ''Z'']))"
proof -
  have "Dijkstra oldest_first scenario (Str ''A'') (Some (Str ''Z'')) None
       = Some (Inr (Path [Str ''Z'']))"
    by (simp add: scenario_eq search_defs oldest_first_def while_loop.simps tracePath_loop.simps)
  then show ?thesis using scenario_nonneg scenario_unreachable_Z by simp
qed

theorem unregistered_target_gives_singleton_path_witness:
  "Dijkstra oldest_first scenario (Str ''A'') (Some (Str ''Z'')) None
       = Some (Inr (Path [Str ''Z'']))"
  using unregistered_target_gives_singleton_path by simp

text \<open>
  C6. With a bound \<^verbatim>\<open>maxCumulWeight\<close>, a relaxation whose candidate distance
  \<open>key m + w\<close> is above the bound leaves the whole state as it is: distances,
  predecessors, queue and handles. On the graph of the scenarios the search from A to C
  with bound 2 returns the empty path, whatever the queue's tie-break.
\<close>

theorem bound_skips_relaxation:
  "(weight G (val m) v = Inr (Some w) \<longrightarrow> maxCumulWeight opts < key m + w \<longrightarrow>
      relax G (Some opts) m v st = Inr st)
   \<and> Dijkstra H scenario (Str ''A'') (Some (Str ''C'')) (Some \<lparr>maxCumulWeight = 2\<rparr>)
       = Some (Inr (Path []))"
proof
  show "weight G (val m) v = Inr (Some w) \<longrightarrow> maxCumulWeight opts < key m + w \<longrightarrow>
      relax G (Some opts) m v st = Inr st"
    by (simp add: relax_def plus_number_def)
  show "Dijkstra H scenario (Str ''A'') (Some (Str ''C'')) (Some \<lparr>maxCumulWeight = 2\<rparr>)
       = Some (Inr (Path []))"
    by (simp add: scenario_eq search_defs while_loop.simps tracePath_loop.simps)
qed

theorem bound_skips_relaxation_witness:
  "weight scenario (val \<lparr>key = 0, val = Str ''A'', handle = 0\<rparr>) (Str ''C'') = Inr (Some 5)
   \<and> maxCumulWeight \<lparr>maxCumulWeight = 2\<rparr> < key \<lparr>key = 0, val = Str ''A'', handle = 0\<rparr> + 5
   \<and> relax scenario (Some \<lparr>maxCumulWeight = 2\<rparr>) \<lparr>key = 0, val = Str ''A'', handle = 0\<rparr> (Str ''C'')
        (init oldest_first scenario (Str ''A''))
      = Inr (init oldest_first scenario (Str ''A''))
   \<and> Dijkstra oldest_first scenario (Str ''A'') (Some (Str ''C'')) (Some \<lparr>maxCumulWeight = 2\<rparr>)
       = Some (Inr (Path []))"
proof -
  have w: "weight scenario (val \<lparr>key = 0, val = Str ''A'', handle = 0\<rparr>) (Str ''C'') = Inr (Some 5)"
    by (simp add: scenario_eq weight_def arc_def weightKey_def)
  have b: "maxCumulWeight \<lparr>maxCumulWeight = 2\<rparr> < key \<lparr>key = 0, val = Str ''A'', handle = 0\<rparr> + 5"
    by simp
  show ?thesis
    using w b bound_skips_relaxation [of scenario "\<lparr>key = 0, val = Str ''A'', handle = 0\<rparr>"
        "Str ''C''" 5 "\<lparr>maxCumulWeight = 2\<rparr>" "init oldest_first scenario (Str ''A'')" oldest_first]
    by blast
qed








text \<open>
  C8. On any graph, with or without a bound: a relaxation writes the distance of no
  node but \<open>v\<close>, and when it writes that of \<open>v\<close> the new recorded distance is strictly
  below the old one (an unset distance counting as \<^verbatim>\<open>Infinity\<close>); between any two
  states of a run, and between the first state and the last of a run that ends, no
  recorded distance is higher in the later state.
\<close>

theorem recorded_distance_never_increases:
  "(relax G Opts m v st = Inr st' \<longrightarrow>
      (\<forall>u. distm st' u = distm st u \<or> (u = v \<and> below (recorded st' u) (recorded st u))))
   \<and> (reaches H G t Opts (init H G s) a \<longrightarrow> reaches H G t Opts a b \<longrightarrow> no_higher a b)
   \<and> (while_loop H G t Opts (init H G s) = Some (Inr b) \<longrightarrow> no_higher (init H G s) b)"
proof (intro conjI impI allI)
  fix u assume "relax G Opts m v st = Inr st'"
  then show "distm st' u = distm st u \<or> (u = v \<and> below (recorded st' u) (recorded st u))"
    by (rule relax_writes_lower)
next
  assume "reaches H G t Opts a b"
  then show "no_higher a b" by (rule reaches_no_higher)
next
  assume "while_loop H G t Opts (init H G s) = Some (Inr b)"
  then have "reaches H G t Opts (init H G s) b" by (rule while_loop_reaches)
  then show "no_higher (init H G s) b" by (rule reaches_no_higher)
qed

theorem recorded_distance_never_increases_witness:
  "\<exists>st' b. relax scenario None \<lparr>key = 0, val = Str ''A'', handle = 0\<rparr> (Str ''B'')
              (init oldest_first scenario (Str ''A'')) = Inr st'
     \<and> recorded (init oldest_first scenario (Str ''A'')) (Str ''B'') = Infinity
     \<and> recorded st' (Str ''B'') = Finite 1
     \<and> (\<forall>u. distm st' u = distm (init oldest_first scenario (Str ''A'')) u
            \<or> (u = Str ''B'' \<and> below (recorded st' u)
                                  (recorded (init oldest_first scenario (Str ''A'')) u)))
     \<and> reaches oldest_first scenario None None (init oldest_first scenario (Str ''A''))
          (init oldest_first scenario (Str ''A''))
     \<and> while_loop oldest_first scenario None None (init oldest_first scenario (Str ''A'')) = Some (Inr b)
     \<and> reaches oldest_first scenario None None (init oldest_first scenario (Str ''A'')) b
     \<and> no_higher (init oldest_first scenario (Str ''A'')) b"
proof -
  let ?st = "init oldest_first scenario (Str ''A'')"
  let ?m = "\<lparr>key = 0, val = Str ''A'', handle = 0\<rparr>"
  obtain st' where r: "relax scenario None ?m (Str ''B'') ?st = Inr st'"
    and d: "recorded st' (Str ''B'') = Finite 1"
    by (simp add: scenario_eq search_defs recorded_def)
  have i: "recorded ?st (Str ''B'') = Infinity"
    by (simp add: scenario_eq search_defs recorded_def oldest_first_def)
  from while_loop_total [OF scenario_nonneg init_inv(1) init_inv(2),
      where H = oldest_first and t = None and Opts = None]
  obtain b where b: "while_loop oldest_first scenario None None ?st = Some (Inr b)"
    by blast
  have h: "reaches oldest_first scenario None None ?st ?st" by (rule reaches.here)
  have hb: "reaches oldest_first scenario None None ?st b" using b by (rule while_loop_reaches)
  show ?thesis
    using r d i b h hb
      recorded_distance_never_increases [of scenario None ?m "Str ''B''" ?st st'
        oldest_first None "Str ''A''" ?st b]
    by blast
qed

text \<open>
  C9. With non-negative weights the full search returns, and in the maps it returns
  every node \<open>v\<close> other than the source with a finite distance has a predecessor \<open>u\<close>
  with a finite distance, and the distance of \<open>v\<close> is the distance of \<open>u\<close> plus
  \<^verbatim>\<open>weight(u, v)\<close>.
\<close>

theorem full_search_predecessor_distance:
  assumes "nonneg_weights G"
  shows "\<exists>dist prv. Dijkstra H G s None Opts = Some (Inr (Maps dist prv))
     \<and> (\<forall>v d. dist v = Some (Finite d) \<longrightarrow> v \<noteq> s \<longrightarrow>
           (\<exists>u du w. prv v = Some (Node u) \<and> dist u = Some (Finite du)
                \<and> weight G u v = Inr (Some w) \<and> d = du + w))"
proof -
  from while_loop_total[OF assms init_inv(1)[of G s H] init_inv(2)[of H G s], where H = H and t = None and Opts = Opts]
  obtain st where st: "while_loop H G None Opts (init H G s) = Some (Inr st)" "loop_inv G s st"
    by blast
  then have pi: "pred_inv G st" and ri: "reached_inv s st" by (simp_all add: loop_inv_def)
  have "\<exists>u du w. prev st v = Some (Node u) \<and> distm st u = Some (Finite du)
                \<and> weight G u v = Inr (Some w) \<and> d = du + w"
    if "distm st v = Some (Finite d)" "v \<noteq> s" for v d
  proof -
    from ri that obtain u where u: "prev st v = Some (Node u)" unfolding reached_inv_def by blast
    with pi obtain du w where "distm st u = Some (Finite du)" "weight G u v = Inr (Some w)"
      "distm st v = Some (Finite (du + w))"
      unfolding pred_inv_def by blast
    with that(1) u show ?thesis by simp
  qed
  moreover have "Dijkstra H G s None Opts = Some (Inr (Maps (distm st) (prev st)))"
    by (simp add: Dijkstra_def st(1))
  ultimately show ?thesis by blast
qed

theorem full_search_predecessor_distance_witness:
  "nonneg_weights scenario
   \<and> (\<exists>dist prv u du w.
         Dijkstra oldest_first scenario (Str ''A'') None None = Some (Inr (Maps dist prv))
         \<and> dist (Str ''C'') = Some (Finite 3)
         \<and> prv (Str ''C'') = Some (Node u) \<and> dist u = Some (Finite du)
         \<and> weight scenario u (Str ''C'') = Inr (Some w) \<and> 3 = du + w)"
proof -
  from full_search_predecessor_distance [OF scenario_nonneg, of oldest_first "Str ''A''" None]
  obtain dist prv where d: "Dijkstra oldest_first scenario (Str ''A'') None None = Some (Inr (Maps dist prv))"
    and p: "\<And>v d. dist v = Some (Finite d) \<Longrightarrow> v \<noteq> Str ''A'' \<Longrightarrow>
           (\<exists>u du w. prv v = Some (Node u) \<and> dist u = Some (Finite du)
                \<and> weight scenario u v = Inr (Some w) \<and> d = du + w)"
    by blast
  have "Dijkstra oldest_first scenario (Str ''A'') None None =
     Some (Inr (Maps [Str ''A'' \<mapsto> Finite 0, Str ''B'' \<mapsto> Finite 1, Str ''C'' \<mapsto> Finite 3]
                     [Str ''A'' \<mapsto> nullNode, Str ''B'' \<mapsto> Node (Str ''A''),
                      Str ''C'' \<mapsto> Node (Str ''B'')]))"
    by (simp add: scenario_eq search_defs while_loop.simps tracePath_loop.simps)
  with d have c: "dist (Str ''C'') = Some (Finite 3)" by auto
  from p [OF c] obtain u du w where "prv (Str ''C'') = Some (Node u)" "dist u = Some (Finite du)"
    "weight scenario u (Str ''C'') = Inr (Some w)" "3 = du + w"
    by auto
  with d c scenario_nonneg show ?thesis by blast
qed

end
